theory Spec2Isabelle
  imports Complex_Main "HOL-Library.Word" "HOL-Library.Log_Nat"
begin

unbundle bit_operations_syntax

section \<open>JavaScript numbers\<close>

text \<open>
  Every number of the three classes is an IEEE 754 double: a finite value, one of the
  two infinities, or NaN. A finite double is carried as the real it denotes; negative
  zero is identified with zero (the two differ only as a divisor).
\<close>

datatype number = Fin real | PosInf | NegInf | NaN

text \<open>
  Rounding to the nearest double, ties to the even significand. \<open>ulp x\<close> is the spacing
  of the doubles around \<open>x\<close>: with \<open>b\<close> the bit length of \<open>\<bar>x\<bar>\<close> counted in units of the
  smallest subnormal \<open>2 ^ - 1074\<close>, the spacing is \<open>2 ^ (b - 53)\<close> of these units, and
  one unit below the normal range. \<open>fl x\<close> is the multiple of \<open>ulp x\<close> nearest to \<open>x\<close>,
  and \<open>rnd x\<close> the number an arithmetic operation with exact result \<open>x\<close> delivers: a
  rounded magnitude of \<open>2 ^ 1024\<close> or more overflows to an infinity.
\<close>

definition roundEven :: "real \<Rightarrow> int" where
  "roundEven y =
     (let f = \<lfloor>y\<rfloor>; r = y - of_int f
      in if r < 1 / 2 then f else if 1 / 2 < r then f + 1 else if even f then f else f + 1)"

definition ulp :: "real \<Rightarrow> real" where
  "ulp x = 2 powi (max (bitlen \<lfloor>\<bar>x\<bar> * 2 ^ 1074\<rfloor>) 53 - 1127)"

definition fl :: "real \<Rightarrow> real" where
  "fl x = of_int (roundEven (x / ulp x)) * ulp x"

definition rnd :: "real \<Rightarrow> number" where
  "rnd x = (let y = fl x
            in if 2 ^ 1024 \<le> y then PosInf else if y \<le> - (2 ^ 1024) then NegInf else Fin y)"

text \<open>The reals that are doubles, the finite numbers, and the value of a finite number.\<close>

definition isDouble :: "real \<Rightarrow> bool" where
  "isDouble x \<longleftrightarrow> rnd x = Fin x"



text \<open>
  The arithmetic operators. \<open>a - b\<close> is \<open>a + (- b)\<close>; a product or quotient that involves
  an infinity takes its sign from the signs of the operands, and \<open>0 * Infinity\<close>,
  \<open>Infinity - Infinity\<close>, \<open>0 / 0\<close> and \<open>Infinity / Infinity\<close> are NaN.
\<close>

fun jsNeg :: "number \<Rightarrow> number" where
  "jsNeg (Fin x) = Fin (- x)"
| "jsNeg PosInf = NegInf"
| "jsNeg NegInf = PosInf"
| "jsNeg NaN = NaN"

fun jsAdd :: "number \<Rightarrow> number \<Rightarrow> number" where
  "jsAdd (Fin a) (Fin b) = rnd (a + b)"
| "jsAdd NaN b = NaN"
| "jsAdd a NaN = NaN"
| "jsAdd PosInf NegInf = NaN"
| "jsAdd NegInf PosInf = NaN"
| "jsAdd PosInf b = PosInf"
| "jsAdd NegInf b = NegInf"
| "jsAdd (Fin a) b = b"

definition jsSub :: "number \<Rightarrow> number \<Rightarrow> number" where
  "jsSub a b = jsAdd a (jsNeg b)"

fun signOf :: "number \<Rightarrow> int" where
  "signOf (Fin x) = (if 0 < x then 1 else if x < 0 then - 1 else 0)"
| "signOf PosInf = 1"
| "signOf NegInf = - 1"
| "signOf NaN = 0"

fun jsMul :: "number \<Rightarrow> number \<Rightarrow> number" where
  "jsMul (Fin a) (Fin b) = rnd (a * b)"
| "jsMul a b =
     (if a = NaN \<or> b = NaN \<or> signOf a * signOf b = 0 then NaN
      else if 0 < signOf a * signOf b then PosInf else NegInf)"

fun jsDiv :: "number \<Rightarrow> number \<Rightarrow> number" where
  "jsDiv (Fin a) (Fin b) =
     (if b = 0 then (if a = 0 then NaN else if 0 < a then PosInf else NegInf)
      else rnd (a / b))"
| "jsDiv (Fin a) PosInf = Fin 0"
| "jsDiv (Fin a) NegInf = Fin 0"
| "jsDiv PosInf (Fin b) = (if 0 \<le> b then PosInf else NegInf)"
| "jsDiv NegInf (Fin b) = (if 0 \<le> b then NegInf else PosInf)"
| "jsDiv a b = NaN"

text \<open>\<open>a < b\<close>: false as soon as one side is NaN.\<close>

fun jsLess :: "number \<Rightarrow> number \<Rightarrow> bool" where
  "jsLess (Fin a) (Fin b) = (a < b)"
| "jsLess NaN b = False"
| "jsLess a NaN = False"
| "jsLess a NegInf = False"
| "jsLess PosInf b = False"
| "jsLess NegInf b = True"
| "jsLess (Fin a) PosInf = True"

text \<open>
  \<open>Math.max\<close> and \<open>Math.min\<close> of two numbers (NaN if one of them is), \<open>Math.round\<close>
  (half up, towards plus infinity; the result of a double is a double), and the
  truth value of a number in a condition or under \<open>||\<close>: 0 and NaN are falsy.
\<close>

definition Math_max :: "number \<Rightarrow> number \<Rightarrow> number" where
  "Math_max a b = (if a = NaN \<or> b = NaN then NaN else if jsLess a b then b else a)"

definition Math_min :: "number \<Rightarrow> number \<Rightarrow> number" where
  "Math_min a b = (if a = NaN \<or> b = NaN then NaN else if jsLess b a then b else a)"

fun Math_round :: "number \<Rightarrow> number" where
  "Math_round (Fin x) = Fin (of_int \<lfloor>x + 1 / 2\<rfloor>)"
| "Math_round PosInf = PosInf"
| "Math_round NegInf = NegInf"
| "Math_round NaN = NaN"

fun truthy :: "number \<Rightarrow> bool" where
  "truthy (Fin x) = (x \<noteq> 0)"
| "truthy PosInf = True"
| "truthy NegInf = True"
| "truthy NaN = False"

text \<open>
  The bitwise operators first convert their operand to a signed 32-bit integer
  (ToInt32): NaN and the infinities become 0, a finite number is truncated towards
  zero and wrapped. \<open>>>\<close> is the arithmetic shift.
\<close>

definition int32 :: "int \<Rightarrow> int" where
  "int32 v = signed_take_bit 31 v"

fun toInt32 :: "number \<Rightarrow> int" where
  "toInt32 (Fin x) = int32 (if 0 \<le> x then \<lfloor>x\<rfloor> else \<lceil>x\<rceil>)"
| "toInt32 PosInf = 0"
| "toInt32 NegInf = 0"
| "toInt32 NaN = 0"

section \<open>MidiRecorder: the recording session\<close>

text \<open>
  A captured event, as \<open>addNote\<close> pushes it. The field \<open>note\<close> of the source is called
  \<open>noteNumber\<close> here (\<open>note\<close> is a reserved word of the proof language). Note numbers
  and velocities are integers (\<open>int\<close>); times are numbers, computed in double arithmetic.
\<close>

record NoteEvent =
  noteNumber :: int
  velocity :: int
  time :: number
  isNoteOn :: bool

datatype error = NoNotesRecorded | MalformedFileError

text \<open>
  The two timers a recorder arms. Both callbacks have the same body:
  \<open>if (this.isRecording) this.stopRecording()\<close>.
\<close>

datatype recorderTimer = InternalTimeoutCb | SilenceTimeoutCb

text \<open>
  The fields of the class, followed by the part of the host's timer table that this
  recorder has filled: \<open>pendingTimeouts\<close> holds (handle, callback, delay in ms) for every
  \<open>setTimeout\<close> that has neither fired nor been cleared. A handle field holding \<open>null\<close>
  is \<open>None\<close>; browser handles are positive, so a stored handle is always truthy.
\<close>

record MidiRecorder =
  isRecording :: bool
  recordedNotes :: "NoteEvent list"
  startTime :: "number option"
  recordingDuration :: number
  silenceTimeout :: "nat option"
  mode :: string
  wasCanceled :: bool
  internalTimeout :: "nat option"
  pendingTimeouts :: "(nat \<times> recorderTimer \<times> number) list"
  nextTimeoutId :: nat

definition newMidiRecorder :: MidiRecorder where
  "newMidiRecorder =
     \<lparr> isRecording = False, recordedNotes = [], startTime = None, recordingDuration = Fin 0,
       silenceTimeout = None, mode = ''time'', wasCanceled = False, internalTimeout = None,
       pendingTimeouts = [], nextTimeoutId = 1 \<rparr>"

definition setTimeoutR :: "recorderTimer \<Rightarrow> number \<Rightarrow> MidiRecorder \<Rightarrow> nat \<times> MidiRecorder" where
  "setTimeoutR cb ms r =
     (nextTimeoutId r,
      r\<lparr> pendingTimeouts := pendingTimeouts r @ [(nextTimeoutId r, cb, ms)],
         nextTimeoutId := Suc (nextTimeoutId r) \<rparr>)"

definition clearTimeoutR :: "nat \<Rightarrow> MidiRecorder \<Rightarrow> MidiRecorder" where
  "clearTimeoutR h r = r\<lparr> pendingTimeouts := filter (\<lambda>e. fst e \<noteq> h) (pendingTimeouts r) \<rparr>"

definition clearAllTimers :: "MidiRecorder \<Rightarrow> MidiRecorder" where
  "clearAllTimers r =
     (let r1 = (case silenceTimeout r of
                  Some h \<Rightarrow> (clearTimeoutR h r)\<lparr> silenceTimeout := None \<rparr>
                | None \<Rightarrow> r)
      in (case internalTimeout r1 of
            Some h \<Rightarrow> (clearTimeoutR h r1)\<lparr> internalTimeout := None \<rparr>
          | None \<Rightarrow> r1))"

definition clearAllState :: "MidiRecorder \<Rightarrow> MidiRecorder" where
  "clearAllState r =
     clearAllTimers (r\<lparr> recordedNotes := [], startTime := None, recordingDuration := Fin 0 \<rparr>)"

definition resetSilenceTimer :: "MidiRecorder \<Rightarrow> MidiRecorder" where
  "resetSilenceTimer r =
     (let r1 = (case silenceTimeout r of Some h \<Rightarrow> clearTimeoutR h r | None \<Rightarrow> r);
          (h, r2) = setTimeoutR SilenceTimeoutCb (Fin 2000) r1
      in r2\<lparr> silenceTimeout := Some h \<rparr>)"

text \<open>\<open>startRecording(mode, duration)\<close>; \<open>now\<close> is the reading of \<open>performance.now()\<close>.\<close>

definition startRecording :: "string \<Rightarrow> number \<Rightarrow> number \<Rightarrow> MidiRecorder \<Rightarrow> MidiRecorder" where
  "startRecording m duration now r =
     (let r1 = clearAllState r;
          r2 = r1\<lparr> isRecording := True, recordedNotes := [], startTime := Some now,
                   mode := m, recordingDuration := jsMul duration (Fin 1000), wasCanceled := False \<rparr>
      in if m = ''time'' then
           (let (h, r3) = setTimeoutR InternalTimeoutCb (recordingDuration r2) r2
            in r3\<lparr> internalTimeout := Some h \<rparr>)
         else if m = ''silence'' then resetSilenceTimer r2
         else r2)"

text \<open>
  \<open>stopRecording()\<close> returns the captured list, or \<open>undefined\<close> (\<open>None\<close>) from the early
  return. \<open>cancelRecording()\<close> returns \<open>true\<close>, or \<open>undefined\<close> from the early return.
\<close>

definition stopRecording :: "MidiRecorder \<Rightarrow> MidiRecorder \<times> NoteEvent list option" where
  "stopRecording r =
     (if \<not> isRecording r then (r, None)
      else (let r1 = clearAllTimers (r\<lparr> isRecording := False \<rparr>)
            in (r1, Some (recordedNotes r1))))"

definition cancelRecording :: "MidiRecorder \<Rightarrow> MidiRecorder \<times> bool option" where
  "cancelRecording r =
     (if \<not> isRecording r then (r, None)
      else (let r1 = r\<lparr> wasCanceled := True, isRecording := False \<rparr>;
                r2 = clearAllTimers r1;
                r3 = clearAllState r2
            in (r3, Some True)))"

text \<open>
  \<open>addNote\<close>: \<open>timestamp - this.startTime\<close> with \<open>startTime = null\<close> subtracts 0.
\<close>

definition addNote :: "int \<Rightarrow> int \<Rightarrow> number \<Rightarrow> bool \<Rightarrow> MidiRecorder \<Rightarrow> MidiRecorder" where
  "addNote n v timestamp on r =
     (if \<not> isRecording r then r
      else (let relativeTime =
                  jsDiv (jsSub timestamp (case startTime r of Some s \<Rightarrow> s | None \<Rightarrow> Fin 0))
                    (Fin 1000);
                r1 = r\<lparr> recordedNotes := recordedNotes r @
                          [\<lparr> noteNumber = n, velocity = v, time = relativeTime, isNoteOn = on \<rparr>] \<rparr>
            in if mode r1 = ''silence'' \<and> on then resetSilenceTimer r1 else r1))"

text \<open>
  The host fires a pending timer: the entry leaves the table and the callback runs.
  A handle that is not pending does nothing.
\<close>

definition fireTimeoutR :: "nat \<Rightarrow> MidiRecorder \<Rightarrow> MidiRecorder" where
  "fireTimeoutR h r =
     (case map_of (pendingTimeouts r) h of
        None \<Rightarrow> r
      | Some cb \<Rightarrow>
          (let r1 = clearTimeoutR h r
           in if isRecording r1 then fst (stopRecording r1) else r1))"

section \<open>MidiRecorder: the file encoder\<close>

function vlqLoop :: "int \<Rightarrow> int list \<Rightarrow> int list" where
  "vlqLoop v bytes =
     (if v > 0 then vlqLoop (drop_bit 7 v) (((v AND 0x7f) OR 0x80) # bytes) else bytes)"
  by pat_completeness auto
termination
proof (relation "measure (\<lambda>(v, bytes). nat v)")
  show "wf (measure (\<lambda>(v, bytes). nat v))" by simp
next
  fix v :: int and bytes :: "int list"
  assume "0 < v"
  then have "v div 128 < v" by simp
  then show "((drop_bit 7 v, ((v AND 0x7f) OR 0x80) # bytes), (v, bytes))
      \<in> measure (\<lambda>(v, bytes). nat v)"
    using \<open>0 < v\<close> by (simp add: drop_bit_eq_div)
qed

declare vlqLoop.simps [simp del]

text \<open>
  \<open>variableLengthQuantity(value)\<close>: the first \<open>unshift\<close> is unconditional, then the loop
  runs while the shifted value is positive. \<open>value & 0x7f\<close> and \<open>value >>= 7\<close> convert
  the number to a 32-bit integer; after the first shift the value is one, so the later
  conversions change nothing (\<open>vlqLoop\<close> works on integers). The argument of
  \<open>int32ToBytes\<close> is the length of an array.
\<close>

definition variableLengthQuantity :: "number \<Rightarrow> int list" where
  "variableLengthQuantity v =
     (let w = toInt32 v in vlqLoop (drop_bit 7 w) [w AND 0x7f])"

definition int32ToBytes :: "int \<Rightarrow> int list" where
  "int32ToBytes v =
     (let w = int32 v
      in [drop_bit 24 w AND 0xff, drop_bit 16 w AND 0xff, drop_bit 8 w AND 0xff, w AND 0xff])"

text \<open>\<open>new Uint8Array(events)\<close> stores every number modulo 256.\<close>

definition Uint8Array :: "int list \<Rightarrow> int list" where
  "Uint8Array xs = map (\<lambda>x. x mod 256) xs"

text \<open>
  \<open>[...notes].sort((a, b) => a.time - b.time)\<close>. The sort is stable, and an element goes
  behind another exactly when the comparator is positive on the pair; with a consistent
  comparator this fixes the result, which is built here by inserting the elements one
  by one, from the last to the first, each before the first element it does not go
  behind. (With NaN or two equal infinities among the times the comparator is not
  consistent, and ECMAScript leaves the order to the implementation.)
\<close>

definition compareTime :: "NoteEvent \<Rightarrow> NoteEvent \<Rightarrow> number" where
  "compareTime a b = jsSub (time a) (time b)"

fun insertNote :: "NoteEvent \<Rightarrow> NoteEvent list \<Rightarrow> NoteEvent list" where
  "insertNote x [] = [x]"
| "insertNote x (y # ys) =
     (if jsLess (Fin 0) (compareTime x y) then y # insertNote x ys else x # y # ys)"

definition sortNotes :: "NoteEvent list \<Rightarrow> NoteEvent list" where
  "sortNotes notes = foldr insertNote notes []"

text \<open>
  Lines 181 to 191 (and again 266 to 272): the sort, then every time is taken relative
  to the earliest one.
\<close>

definition normalizedNotes :: "NoteEvent list \<Rightarrow> NoteEvent list" where
  "normalizedNotes notes =
     (let sortedNotes = sortNotes notes;
          firstNoteTime = (case sortedNotes of [] \<Rightarrow> Fin 0 | n # _ \<Rightarrow> time n)
      in map (\<lambda>n. n\<lparr> time := jsSub (time n) firstNoteTime \<rparr>) sortedNotes)"

text \<open>
  The \<open>for\<close> loop over the normalised notes (lines 193 to 204, and again 280 to 290),
  threading \<open>currentTime\<close> and the growing array \<open>events\<close>.
\<close>

fun noteLoop :: "NoteEvent list \<Rightarrow> number \<Rightarrow> int list \<Rightarrow> int list \<times> number" where
  "noteLoop [] currentTime events = (events, currentTime)"
| "noteLoop (n # rest) currentTime events =
     (let deltaTime =
            Math_max (Fin 0) (Math_round (jsMul (jsSub (time n) currentTime) (Fin 160)));
          status = (if isNoteOn n then 0x90 else 0x80)
      in noteLoop rest (time n)
           (events @ variableLengthQuantity deltaTime @ [status, noteNumber n, velocity n]))"

definition createTrackData :: "NoteEvent list \<Rightarrow> int list" where
  "createTrackData notes =
     (let (events, currentTime) = noteLoop (normalizedNotes notes) (Fin 0) []
      in Uint8Array (events @ [0x00, 0xff, 0x2f, 0x00]))"

definition midiHeader :: "int list" where
  "midiHeader = [0x4d, 0x54, 0x68, 0x64, 0x00, 0x00, 0x00, 0x06, 0x00, 0x00, 0x00, 0x01, 0x00, 0x60]"

definition trackHeader :: "int list \<Rightarrow> int list" where
  "trackHeader trackData =
     Uint8Array ([0x4d, 0x54, 0x72, 0x6b] @ int32ToBytes (int (length trackData)))"

definition createMidiData :: "NoteEvent list \<Rightarrow> int list" where
  "createMidiData notes =
     (let trackData = createTrackData notes
      in midiHeader @ trackHeader trackData @ trackData)"

definition convertToMidiBlob :: "MidiRecorder \<Rightarrow> error + int list" where
  "convertToMidiBlob r =
     (if length (recordedNotes r) = 0 then Inl NoNotesRecorded
      else Inr (createMidiData (recordedNotes r)))"

text \<open>
  The delta before the closing sustain note-off (lines 293 to 295); \<open>currentTime\<close> is the
  value the loop leaves behind, and the literal \<open>9.6\<close> is the double nearest to it.
\<close>

definition remainingTicks :: "number \<Rightarrow> number" where
  "remainingTicks currentTime =
     (let targetDuration = rnd (96 / 10)
      in Math_round (jsMul (jsSub targetDuration currentTime) (Fin 160)))"

definition createPlaybackTrackData :: "NoteEvent list \<Rightarrow> int list" where
  "createPlaybackTrackData notes =
     (let events0 = variableLengthQuantity (Fin 0) @ [0x90, 127, 1];
          (events1, currentTime) = noteLoop (normalizedNotes notes) (Fin 0) events0;
          events2 = events1 @ variableLengthQuantity (remainingTicks currentTime) @ [0x80, 127, 0]
      in Uint8Array (events2 @ [0x00, 0xff, 0x2f, 0x00]))"

definition createPlaybackMidiData :: "NoteEvent list \<Rightarrow> int list" where
  "createPlaybackMidiData notes =
     (let trackData = createPlaybackTrackData notes
      in midiHeader @ trackHeader trackData @ trackData)"

definition createPlaybackMidiBlob :: "MidiRecorder \<Rightarrow> error + int list" where
  "createPlaybackMidiBlob r =
     (if length (recordedNotes r) = 0 then Inl NoNotesRecorded
      else Inr (createPlaybackMidiData (recordedNotes r)))"

section \<open>Decoding an event file\<close>






section \<open>Views of the encoder used in the statements\<close>

text \<open>
  The delta-time values the note loop computes, one per note, in order; the bytes one
  loop iteration pushes; and the value of \<open>currentTime\<close> after the loop.
\<close>

fun deltas :: "NoteEvent list \<Rightarrow> number \<Rightarrow> number list" where
  "deltas [] currentTime = []"
| "deltas (n # rest) currentTime =
     Math_max (Fin 0) (Math_round (jsMul (jsSub (time n) currentTime) (Fin 160)))
       # deltas rest (time n)"

definition eventBytes :: "number \<Rightarrow> NoteEvent \<Rightarrow> int list" where
  "eventBytes d n =
     variableLengthQuantity d @ [if isNoteOn n then 0x90 else 0x80, noteNumber n, velocity n]"

definition lastTime :: "NoteEvent list \<Rightarrow> number \<Rightarrow> number" where
  "lastTime ns currentTime = (if ns = [] then currentTime else time (last ns))"

text \<open>
  The absolute tick of the closing sustain note-off in the playback-padded track: the
  sustain note-on at delta 0, then the deltas of the user events, then the closing
  delta, each as the 32-bit integer \<open>variableLengthQuantity\<close> works on.
\<close>

definition sustainOffTick :: "NoteEvent list \<Rightarrow> int" where
  "sustainOffTick notes =
     (let nn = normalizedNotes notes
      in 0 + sum_list (map toInt32 (deltas nn (Fin 0))) + toInt32 (remainingTicks (lastTime nn (Fin 0))))"



section \<open>Sequences of recorder operations\<close>

datatype recorderOp =
  AddNote int int number bool | StopRecording | CancelRecording | FireTimeout nat

fun applyOp :: "recorderOp \<Rightarrow> MidiRecorder \<Rightarrow> MidiRecorder" where
  "applyOp (AddNote n v ts on) r = addNote n v ts on r"
| "applyOp StopRecording r = fst (stopRecording r)"
| "applyOp CancelRecording r = fst (cancelRecording r)"
| "applyOp (FireTimeout h) r = fireTimeoutR h r"

fun applyOps :: "recorderOp list \<Rightarrow> MidiRecorder \<Rightarrow> MidiRecorder" where
  "applyOps [] r = r"
| "applyOps (x # xs) r = applyOps xs (applyOp x r)"

section \<open>PrecisionMIDIPlayer\<close>

text \<open>
  The decoded file as the third-party parser hands it over: \<open>midi.tracks\<close>, each with
  its \<open>notes\<close>, each note with \<open>name\<close>, \<open>duration\<close>, \<open>time\<close> and \<open>velocity\<close>
  (the field names carry the prefix \<open>note\<close> here, to keep them apart from those of
  NoteEvent).
\<close>

record MidiNote =
  noteName :: string
  noteDuration :: number
  noteTime :: number
  noteVelocity :: number

type_synonym Midi = "MidiNote list list"

text \<open>
  \<open>Tone.Transport\<close>, as far as the player uses it: its state and the events on its
  timeline, each with the handle \<open>schedule\<close> returned, its time, and its callback. The two
  callbacks the player schedules are the forced stop, and a note trigger that calls
  \<open>triggerAttackRelease(note.name, adjustedDuration, time, note.velocity)\<close>.
\<close>

datatype transportCallback = StopCallback | NoteCallback string number number

datatype transportState = Started | Stopped | Paused

record Transport =
  transportState :: transportState
  timeline :: "(nat \<times> number \<times> transportCallback) list"
  nextEventId :: nat

definition Transport_schedule :: "transportCallback \<Rightarrow> number \<Rightarrow> Transport \<Rightarrow> nat \<times> Transport" where
  "Transport_schedule cb t tr =
     (nextEventId tr,
      tr\<lparr> timeline := timeline tr @ [(nextEventId tr, t, cb)],
          nextEventId := Suc (nextEventId tr) \<rparr>)"

definition Transport_clear :: "nat \<Rightarrow> Transport \<Rightarrow> Transport" where
  "Transport_clear h tr = tr\<lparr> timeline := filter (\<lambda>e. fst e \<noteq> h) (timeline tr) \<rparr>"

text \<open>
  The fields of the class (\<open>isPlaying\<close> is \<open>playing\<close> here, the metronome has a field
  of the same name), then the world it acts on: the transport, the text of the
  \<open>.midi-player-status\<close> elements of the page, and the calls the synth has received
  (name, duration, time, velocity). The constructor's \<open>9.6\<close> is the double nearest to it.
\<close>

record PrecisionMIDIPlayer =
  synth :: bool
  forcedDuration :: number
  playing :: bool
  currentMidiData :: "Midi option"
  scheduledEvents :: "nat list"
  transport :: Transport
  statusElements :: "string list"
  triggered :: "(string \<times> number \<times> number \<times> number) list"

definition newPrecisionMIDIPlayer :: PrecisionMIDIPlayer where
  "newPrecisionMIDIPlayer =
     \<lparr> synth = False, forcedDuration = rnd (96 / 10), playing = False, currentMidiData = None,
       scheduledEvents = [],
       transport = \<lparr> transportState = Stopped, timeline = [], nextEventId = 0 \<rparr>,
       statusElements = [], triggered = [] \<rparr>"

definition init :: "PrecisionMIDIPlayer \<Rightarrow> PrecisionMIDIPlayer" where
  "init p = (if \<not> synth p then p\<lparr> synth := True \<rparr> else p)"

definition updatePlaybackStatus :: "bool \<Rightarrow> PrecisionMIDIPlayer \<Rightarrow> PrecisionMIDIPlayer" where
  "updatePlaybackStatus isOn p =
     p\<lparr> statusElements :=
          map (\<lambda>el. if isOn then ''Playing (Precision Mode)'' else ''Stopped'') (statusElements p) \<rparr>"

text \<open>\<open>stop()\<close> of the player.\<close>

definition stopPlayer :: "PrecisionMIDIPlayer \<Rightarrow> PrecisionMIDIPlayer" where
  "stopPlayer p =
     (if playing p then
        (let tr1 = (transport p)\<lparr> transportState := Stopped \<rparr>;
             tr2 = foldl (\<lambda>tr ev. Transport_clear ev tr) tr1 (scheduledEvents p);
             p1 = p\<lparr> transport := tr2, scheduledEvents := [], playing := False \<rparr>
         in updatePlaybackStatus False p1)
      else p)"

definition pause :: "PrecisionMIDIPlayer \<Rightarrow> PrecisionMIDIPlayer" where
  "pause p =
     (if playing p then
        updatePlaybackStatus False (p\<lparr> transport := (transport p)\<lparr> transportState := Paused \<rparr> \<rparr>)
      else p)"

definition resume :: "PrecisionMIDIPlayer \<Rightarrow> PrecisionMIDIPlayer" where
  "resume p =
     (if \<not> playing p \<and> transportState (transport p) = Paused then
        updatePlaybackStatus True (p\<lparr> transport := (transport p)\<lparr> transportState := Started \<rparr> \<rparr>)
      else p)"

text \<open>The inner \<open>forEach\<close> over the notes of a track, and the outer one over the tracks.\<close>

fun scheduleNotes :: "number \<Rightarrow> MidiNote list \<Rightarrow> PrecisionMIDIPlayer \<Rightarrow> PrecisionMIDIPlayer" where
  "scheduleNotes duration [] p = p"
| "scheduleNotes duration (n # ns) p =
     scheduleNotes duration ns
       (if jsLess (noteTime n) duration then
          (let adjustedDuration = Math_min (noteDuration n) (jsSub duration (noteTime n));
               (noteEvent, tr) =
                 Transport_schedule (NoteCallback (noteName n) adjustedDuration (noteVelocity n))
                   (noteTime n) (transport p)
           in p\<lparr> transport := tr, scheduledEvents := scheduledEvents p @ [noteEvent] \<rparr>)
        else p)"

fun scheduleTracks :: "number \<Rightarrow> Midi \<Rightarrow> PrecisionMIDIPlayer \<Rightarrow> PrecisionMIDIPlayer" where
  "scheduleTracks duration [] p = p"
| "scheduleTracks duration (track # tracks) p =
     scheduleTracks duration tracks (scheduleNotes duration track p)"

text \<open>
  \<open>forcedDuration || this.forcedDuration\<close>: \<open>null\<close> (\<open>None\<close>), 0 and NaN are falsy and
  give the field of the player.
\<close>

definition effectiveDuration :: "number option \<Rightarrow> PrecisionMIDIPlayer \<Rightarrow> number" where
  "effectiveDuration forced p =
     (case forced of
        None \<Rightarrow> forcedDuration p
      | Some d \<Rightarrow> if truthy d then d else forcedDuration p)"

text \<open>
  \<open>loadAndPlayWithDuration(midiUrl, forcedDuration)\<close>. The argument \<open>fetched\<close> is the
  outcome of importing the parser and of \<open>Midi.fromUrl(midiUrl)\<close>: the decoded file,
  or the error thrown. The result is the value the promise resolves to (\<open>Inr\<close>), or
  the error it rejects with (\<open>Inl\<close>); everything after \<open>init\<close> sits inside the
  \<open>try\<close>, whose \<open>catch\<close> logs the error and returns \<open>false\<close>.
\<close>

definition loadAndPlayWithDuration ::
    "error + Midi \<Rightarrow> number option \<Rightarrow> PrecisionMIDIPlayer \<Rightarrow> PrecisionMIDIPlayer \<times> (error + bool)" where
  "loadAndPlayWithDuration fetched forced p =
     (let p0 = init p;
          duration = effectiveDuration forced p0
      in case fetched of
           Inl e \<Rightarrow> (p0, Inr False)
         | Inr midi \<Rightarrow>
             (let p1 = p0\<lparr> currentMidiData := Some midi \<rparr>;
                  p2 = stopPlayer p1;
                  (stopEvent, tr) = Transport_schedule StopCallback duration (transport p2);
                  p3 = p2\<lparr> transport := tr, scheduledEvents := scheduledEvents p2 @ [stopEvent] \<rparr>;
                  p4 = scheduleTracks duration midi p3;
                  p5 = p4\<lparr> transport := (transport p4)\<lparr> transportState := Started \<rparr>,
                           playing := True \<rparr>;
                  p6 = updatePlaybackStatus True p5
              in (p6, Inr True)))"

text \<open>
  The transport reaches an event and runs its callback at transport time \<open>t\<close>
  (\<open>schedule\<close> keeps the event on the timeline).
\<close>

fun runCallback :: "transportCallback \<Rightarrow> number \<Rightarrow> PrecisionMIDIPlayer \<Rightarrow> PrecisionMIDIPlayer" where
  "runCallback StopCallback t p = stopPlayer p"
| "runCallback (NoteCallback nm adjustedDuration vel) t p =
     p\<lparr> triggered := triggered p @ [(nm, adjustedDuration, t, vel)] \<rparr>"

text \<open>
  The events on the timeline that the player holds a handle of, and the note triggers a
  load with duration \<open>d\<close> has to schedule for a track.
\<close>

definition ownEvents :: "PrecisionMIDIPlayer \<Rightarrow> (nat \<times> number \<times> transportCallback) list" where
  "ownEvents p = filter (\<lambda>e. fst e \<in> set (scheduledEvents p)) (timeline (transport p))"

definition noteTriggers :: "number \<Rightarrow> MidiNote list \<Rightarrow> (number \<times> transportCallback) list" where
  "noteTriggers d ns =
     map (\<lambda>n. (noteTime n,
               NoteCallback (noteName n) (Math_min (noteDuration n) (jsSub d (noteTime n)))
                 (noteVelocity n)))
       (filter (\<lambda>n. jsLess (noteTime n) d) ns)"

text \<open>
  What holds of a player between calls: handles on the timeline are below the next
  handle (\<open>timelineFresh\<close>), so are the handles the player holds, and a player that is
  not playing holds no handle.
\<close>

definition timelineFresh :: "PrecisionMIDIPlayer \<Rightarrow> bool" where
  "timelineFresh p \<longleftrightarrow>
     list_all (\<lambda>e. fst e < nextEventId (transport p)) (timeline (transport p))"

definition playerInv :: "PrecisionMIDIPlayer \<Rightarrow> bool" where
  "playerInv p \<longleftrightarrow>
     timelineFresh p
     \<and> list_all (\<lambda>h. h < nextEventId (transport p)) (scheduledEvents p)
     \<and> (playing p \<or> scheduledEvents p = [])"

text \<open>One call of \<open>Tone.Transport.schedule\<close> followed by the push of its handle.\<close>

definition scheduleOne :: "transportCallback \<Rightarrow> number \<Rightarrow> PrecisionMIDIPlayer \<Rightarrow> PrecisionMIDIPlayer" where
  "scheduleOne cb t p =
     (let (h, tr) = Transport_schedule cb t (transport p)
      in p\<lparr> transport := tr, scheduledEvents := scheduledEvents p @ [h] \<rparr>)"

section \<open>Metronome\<close>

text \<open>
  The beat indicator of the page: the class lists of the elements \<open>beatCircle\<close> and
  \<open>beatCount\<close>, and the text of \<open>beatCount\<close>, which is empty, the count-in beat
  (\<open>beat.toString()\<close>) or \<open>Beat n\<close>.
\<close>

datatype indicatorText = NoText | CountText int | BeatText int

record Indicator =
  circleClasses :: "string set"
  countClasses :: "string set"
  countText :: indicatorText

text \<open>
  The timers a metronome arms: the next scheduler tick (the only one whose handle is
  kept, in \<open>intervalId\<close>), the hand-over to \<open>startMIDIRecording\<close> 50 ms after the fourth
  count-in beat, the 150 ms timer that switches the beat circle off, and the 50 ms
  timer inside \<open>startMIDIRecording\<close> that calls \<open>startDirectCapture(bufferedDuration)\<close>.
\<close>

datatype metronomeTimer =
  SchedulerCb | StartMIDIRecordingCb | IndicatorOffCb | StartDirectCaptureCb number

datatype metronomeError = AudioInitError

text \<open>
  The fields of the class, then the world it acts on: the clicks handed to the audio
  engine (time, count-in flag), the indicator (\<open>None\<close> when the page has no such
  elements), the pending timers (handle, callback, delay in ms), and the durations
  \<open>startDirectCapture\<close> was called with. \<open>audioContext\<close> tells whether the context exists.
  Timer handles are positive, as the browser's are, so a stored handle is truthy.
  The two beat counters hold integers (\<open>++\<close> is exact below \<open>2 ^ 53\<close>); the tempo and
  the times are numbers, and the literal \<open>0.1\<close> is the double nearest to it.
\<close>

record Metronome =
  isPlaying :: bool
  bpm :: number
  beatCount :: int
  isCountingIn :: bool
  countInBeat :: int
  recordingStarted :: bool
  audioContext :: bool
  intervalId :: "nat option"
  nextNoteTime :: number
  lookahead :: number
  scheduleAheadTime :: number
  clicks :: "(number \<times> bool) list"
  indicator :: "Indicator option"
  timeouts :: "(nat \<times> metronomeTimer \<times> number) list"
  nextTimerId :: nat
  captures :: "number list"

definition newMetronome :: "Indicator option \<Rightarrow> Metronome" where
  "newMetronome page =
     \<lparr> isPlaying = False, bpm = Fin 100, beatCount = 0, isCountingIn = False,
       countInBeat = 0, recordingStarted = False, audioContext = False, intervalId = None,
       nextNoteTime = Fin 0, lookahead = Fin 25, scheduleAheadTime = rnd (1 / 10),
       clicks = [], indicator = page,
       timeouts = [], nextTimerId = 1, captures = [] \<rparr>"

definition setTimeoutM :: "metronomeTimer \<Rightarrow> number \<Rightarrow> Metronome \<Rightarrow> nat \<times> Metronome" where
  "setTimeoutM cb ms m =
     (nextTimerId m,
      m\<lparr> timeouts := timeouts m @ [(nextTimerId m, cb, ms)],
         nextTimerId := Suc (nextTimerId m) \<rparr>)"

definition clearTimeoutM :: "nat \<Rightarrow> Metronome \<Rightarrow> Metronome" where
  "clearTimeoutM h m = m\<lparr> timeouts := filter (\<lambda>e. fst e \<noteq> h) (timeouts m) \<rparr>"

definition playClick :: "number \<Rightarrow> bool \<Rightarrow> Metronome \<Rightarrow> Metronome" where
  "playClick t isCountIn m = m\<lparr> clicks := clicks m @ [(t, isCountIn)] \<rparr>"

definition updateVisualIndicator :: "int \<Rightarrow> bool \<Rightarrow> Metronome \<Rightarrow> Metronome" where
  "updateVisualIndicator beat isCountIn m =
     (case indicator m of
        None \<Rightarrow> m
      | Some ind \<Rightarrow>
          (let ind1 = ind\<lparr> circleClasses := circleClasses ind - {''active'', ''count-in''},
                          countClasses := countClasses ind - {''count-in'', ''recording''} \<rparr>;
               ind2 = (if isCountIn then
                         ind1\<lparr> circleClasses := insert ''count-in'' (circleClasses ind1),
                               countClasses := insert ''count-in'' (countClasses ind1),
                               countText := CountText beat \<rparr>
                       else
                         ind1\<lparr> circleClasses := insert ''active'' (circleClasses ind1),
                               countClasses := insert ''recording'' (countClasses ind1),
                               countText := BeatText beat \<rparr>)
           in snd (setTimeoutM IndicatorOffCb (Fin 150) (m\<lparr> indicator := Some ind2 \<rparr>))))"

definition nextNote :: "Metronome \<Rightarrow> Metronome" where
  "nextNote m =
     (let secondsPerBeat = jsDiv (Fin 60) (bpm m);
          m1 = m\<lparr> nextNoteTime := jsAdd (nextNoteTime m) secondsPerBeat \<rparr>
      in if isCountingIn m1 then
           (let m2 = m1\<lparr> countInBeat := countInBeat m1 + 1 \<rparr>;
                m3 = updateVisualIndicator (countInBeat m2) True m2
            in if countInBeat m3 \<ge> 4 then
                 snd (setTimeoutM StartMIDIRecordingCb (Fin 50)
                        (m3\<lparr> isCountingIn := False, beatCount := 0, recordingStarted := True \<rparr>))
               else m3)
         else
           (let m2 = m1\<lparr> beatCount := beatCount m1 + 1 \<rparr>
            in updateVisualIndicator (beatCount m2) False m2))"

text \<open>The body of the \<open>while\<close> loop of \<open>scheduleNote\<close>: one beat.\<close>

definition beat :: "Metronome \<Rightarrow> Metronome" where
  "beat m = nextNote (playClick (nextNoteTime m) (isCountingIn m) m)"

text \<open>
  \<open>scheduleNote()\<close>; \<open>currentTime\<close> is the reading of \<open>audioContext.currentTime\<close>, which
  does not move while the loop runs. The loop need not end (a negative tempo moves
  \<open>nextNoteTime\<close> backwards, and a beat too short to change the double \<open>nextNoteTime\<close>
  leaves it in place), so not returning is the value \<open>None\<close>.
\<close>

partial_function (option) scheduleNote :: "number \<Rightarrow> Metronome \<Rightarrow> Metronome option" where
  "scheduleNote currentTime m =
     (if jsLess (nextNoteTime m) (jsAdd currentTime (scheduleAheadTime m))
      then scheduleNote currentTime (beat m)
      else Some m)"

definition scheduler :: "number \<Rightarrow> Metronome \<Rightarrow> Metronome option" where
  "scheduler currentTime m =
     (case scheduleNote currentTime m of
        None \<Rightarrow> None
      | Some m1 \<Rightarrow>
          Some (if isPlaying m1 then
                  (let (h, m2) = setTimeoutM SchedulerCb (lookahead m1) m1
                   in m2\<lparr> intervalId := Some h \<rparr>)
                else m1))"

text \<open>
  \<open>start(bpm, countIn)\<close>. \<open>audioOk\<close> tells whether creating the audio context succeeds
  when there is none yet; a failure is logged and thrown on to the caller. The
  assignments of lines 89 to 96 are \<open>startState\<close>.
\<close>

definition startState :: "number \<Rightarrow> bool \<Rightarrow> number \<Rightarrow> Metronome \<Rightarrow> Metronome" where
  "startState newBpm countIn currentTime m =
     m\<lparr> bpm := newBpm, beatCount := 0, countInBeat := 0, isCountingIn := countIn,
        recordingStarted := False, isPlaying := True, nextNoteTime := currentTime \<rparr>"

definition start ::
    "number \<Rightarrow> bool \<Rightarrow> bool \<Rightarrow> number \<Rightarrow> Metronome \<Rightarrow> (metronomeError + Metronome) option" where
  "start newBpm countIn audioOk currentTime m =
     (if \<not> audioContext m \<and> \<not> audioOk then Some (Inl AudioInitError)
      else map_option Inr
             (scheduler currentTime
                (startState newBpm countIn currentTime (m\<lparr> audioContext := True \<rparr>))))"

text \<open>\<open>stop()\<close> of the metronome.\<close>

definition stopMetronome :: "Metronome \<Rightarrow> Metronome" where
  "stopMetronome m =
     (if isPlaying m then
        (let m1 = m\<lparr> isPlaying := False, isCountingIn := False, recordingStarted := False \<rparr>;
             m2 = (case intervalId m1 of
                     Some h \<Rightarrow> (clearTimeoutM h m1)\<lparr> intervalId := None \<rparr>
                   | None \<Rightarrow> m1)
         in case indicator m2 of
              Some ind \<Rightarrow>
                m2\<lparr> indicator := Some
                      (ind\<lparr> circleClasses := circleClasses ind - {''active'', ''count-in''},
                            countClasses := countClasses ind - {''count-in'', ''recording''},
                            countText := NoText \<rparr>) \<rparr>
            | None \<Rightarrow> m2)
      else m)"

definition startMIDIRecording :: "Metronome \<Rightarrow> Metronome" where
  "startMIDIRecording m =
     (let currentTempo = Fin 100;
          beatsPerSecond = jsDiv currentTempo (Fin 60);
          durationFor16Beats = jsDiv (Fin 16) beatsPerSecond;
          bufferedDuration = jsAdd durationFor16Beats (Fin 3)
      in snd (setTimeoutM (StartDirectCaptureCb bufferedDuration) (Fin 50) m))"

text \<open>
  The host fires a pending timer at clock reading \<open>currentTime\<close>: the entry leaves the
  table and its callback runs.
\<close>

definition fireTimeoutM :: "nat \<Rightarrow> number \<Rightarrow> Metronome \<Rightarrow> Metronome option" where
  "fireTimeoutM h currentTime m =
     (case map_of (timeouts m) h of
        None \<Rightarrow> Some m
      | Some (cb, ms) \<Rightarrow>
          (let m1 = clearTimeoutM h m
           in case cb of
                SchedulerCb \<Rightarrow> scheduler currentTime m1
              | StartMIDIRecordingCb \<Rightarrow> Some (startMIDIRecording m1)
              | IndicatorOffCb \<Rightarrow>
                  Some (case indicator m1 of
                          None \<Rightarrow> m1
                        | Some ind \<Rightarrow>
                            m1\<lparr> indicator := Some
                                  (ind\<lparr> circleClasses :=
                                          circleClasses ind - {''active'', ''count-in''} \<rparr>) \<rparr>)
              | StartDirectCaptureCb d \<Rightarrow> Some (m1\<lparr> captures := captures m1 @ [d] \<rparr>)))"

text \<open>
  A run of the host's timer queue: the timers fired, in order, each with the clock
  reading at that moment. A timer that is no longer pending does nothing.
\<close>

fun runTimers :: "(nat \<times> number) list \<Rightarrow> Metronome \<Rightarrow> Metronome option" where
  "runTimers [] m = Some m"
| "runTimers (f # fs) m = Option.bind (fireTimeoutM (fst f) (snd f) m) (runTimers fs)"

text \<open>
  Counters read off a metronome: the count-in clicks and the regular clicks played so
  far, and the pending hand-overs to \<open>startMIDIRecording\<close>.
\<close>

definition countInClicks :: "Metronome \<Rightarrow> nat" where
  "countInClicks m = length (filter snd (clicks m))"

definition regularClicks :: "Metronome \<Rightarrow> nat" where
  "regularClicks m = length (filter (\<lambda>c. \<not> snd c) (clicks m))"

definition handoffsPending :: "Metronome \<Rightarrow> nat" where
  "handoffsPending m = length (filter (\<lambda>e. fst (snd e) = StartMIDIRecordingCb) (timeouts m))"

text \<open>
  The state of a count-in, relative to the numbers \<open>c0\<close> of count-in clicks and \<open>r0\<close>
  of regular clicks played before it began: both counters of the class agree with the
  clicks played since, at most one hand-over is pending, and the metronome is counting
  in, with fewer than 4 count-in clicks, no regular click and no hand-over pending, or
  it has played exactly 4 count-in clicks.
\<close>

definition countInInv :: "nat \<Rightarrow> nat \<Rightarrow> Metronome \<Rightarrow> bool" where
  "countInInv c0 r0 m \<longleftrightarrow>
     c0 \<le> countInClicks m \<and> r0 \<le> regularClicks m
     \<and> countInBeat m = int (countInClicks m - c0)
     \<and> beatCount m = int (regularClicks m - r0)
     \<and> handoffsPending m \<le> 1
     \<and> (if isCountingIn m
         then countInClicks m < c0 + 4 \<and> regularClicks m = r0 \<and> handoffsPending m = 0
         else countInClicks m = c0 + 4)"

text \<open>
  The tempos and clock readings of ordinary use: a tempo from 1 to 1000 BPM, a next
  beat time that is a non-negative number, the look-ahead of the constructor; and a
  reading of \<open>audioContext.currentTime\<close> from 0 to \<open>2 ^ 30\<close> seconds.
\<close>

definition timesOk :: "Metronome \<Rightarrow> bool" where
  "timesOk m \<longleftrightarrow>
     (case bpm m of Fin b \<Rightarrow> 1 \<le> b \<and> b \<le> 1000 | _ \<Rightarrow> False)
     \<and> (case nextNoteTime m of Fin n \<Rightarrow> 0 \<le> n | _ \<Rightarrow> False)
     \<and> scheduleAheadTime m = rnd (1 / 10)"

definition clockOk :: "number \<Rightarrow> bool" where
  "clockOk t \<longleftrightarrow> (case t of Fin c \<Rightarrow> 0 \<le> c \<and> c \<le> 2 ^ 30 | _ \<Rightarrow> False)"

section \<open>Concrete inputs\<close>



text \<open>
  A fixed-duration session started at clock reading 1000 ms, with a note-on at 1100 ms
  and a note-off at 1500 ms; and the two events it captures, at the doubles 0.1 and 0.5.
\<close>

definition session_two_notes :: MidiRecorder where
  "session_two_notes =
     addNote 60 100 (Fin 1500) False
       (addNote 60 100 (Fin 1100) True
          (startRecording ''time'' (Fin 2) (Fin 1000) newMidiRecorder))"

definition scenario_notes :: "NoteEvent list" where
  "scenario_notes =
     [\<lparr> noteNumber = 60, velocity = 100, time = rnd (1 / 10), isNoteOn = True \<rparr>,
      \<lparr> noteNumber = 60, velocity = 100, time = Fin (1 / 2), isNoteOn = False \<rparr>]"

text \<open>A capture that spans 10 s, and four events \<open>1 / 256\<close> s apart.\<close>

definition late_notes :: "NoteEvent list" where
  "late_notes =
     [\<lparr> noteNumber = 60, velocity = 100, time = Fin 0, isNoteOn = True \<rparr>,
      \<lparr> noteNumber = 60, velocity = 0, time = Fin 10, isNoteOn = False \<rparr>]"

definition padding_notes :: "NoteEvent list" where
  "padding_notes =
     [\<lparr> noteNumber = 60, velocity = 100, time = Fin 0, isNoteOn = True \<rparr>,
      \<lparr> noteNumber = 60, velocity = 0, time = Fin (1 / 256), isNoteOn = False \<rparr>,
      \<lparr> noteNumber = 60, velocity = 100, time = Fin (2 / 256), isNoteOn = True \<rparr>,
      \<lparr> noteNumber = 60, velocity = 0, time = Fin (3 / 256), isNoteOn = False \<rparr>]"



text \<open>
  A count-in at 100 BPM on a fresh metronome, on a page without beat indicator:
  the state after \<open>start(100, true)\<close> at clock reading 0, which emits the first
  count-in beat, and after scheduler ticks that emit the second, third and fourth.
  The beat times are the doubles 0.6, 1.2 and 1.7999999999999998 the code computes by
  repeated addition of \<open>60 / 100\<close>. The fourth beat arms the hand-over as timer 4.
\<close>

definition after_tick0 :: Metronome where
  "after_tick0 =
     (newMetronome None)
       \<lparr> isPlaying := True, isCountingIn := True, countInBeat := 1, audioContext := True,
         intervalId := Some 1, nextNoteTime := Fin (5404319552844595 / 2 ^ 53),
         clicks := [(Fin 0, True)],
         timeouts := [(1, SchedulerCb, Fin 25)], nextTimerId := 2 \<rparr>"

definition after_tick1 :: Metronome where
  "after_tick1 =
     after_tick0
       \<lparr> countInBeat := 2, intervalId := Some 2,
         nextNoteTime := Fin (5404319552844595 / 2 ^ 52),
         clicks := [(Fin 0, True), (Fin (5404319552844595 / 2 ^ 53), True)],
         timeouts := [(2, SchedulerCb, Fin 25)], nextTimerId := 3 \<rparr>"

definition after_tick2 :: Metronome where
  "after_tick2 =
     after_tick1
       \<lparr> countInBeat := 3, intervalId := Some 3,
         nextNoteTime := Fin (2026619832316723 / 2 ^ 50),
         clicks := [(Fin 0, True), (Fin (5404319552844595 / 2 ^ 53), True),
                    (Fin (5404319552844595 / 2 ^ 52), True)],
         timeouts := [(3, SchedulerCb, Fin 25)], nextTimerId := 4 \<rparr>"

definition after_tick3 :: Metronome where
  "after_tick3 =
     after_tick2
       \<lparr> isCountingIn := False, countInBeat := 4, recordingStarted := True,
         intervalId := Some 5, nextNoteTime := Fin (5404319552844595 / 2 ^ 51),
         clicks := [(Fin 0, True), (Fin (5404319552844595 / 2 ^ 53), True),
                    (Fin (5404319552844595 / 2 ^ 52), True),
                    (Fin (2026619832316723 / 2 ^ 50), True)],
         timeouts := [(4, StartMIDIRecordingCb, Fin 50), (5, SchedulerCb, Fin 25)],
         nextTimerId := 6 \<rparr>"

definition late_beat5 :: Metronome where
  "late_beat5 =
     after_tick3
       \<lparr> beatCount := 1, nextNoteTime := Fin 3,
         clicks := [(Fin 0, True), (Fin (5404319552844595 / 2 ^ 53), True),
                    (Fin (5404319552844595 / 2 ^ 52), True),
                    (Fin (2026619832316723 / 2 ^ 50), True),
                    (Fin (5404319552844595 / 2 ^ 51), False)] \<rparr>"

definition late_tick :: Metronome where
  "late_tick =
     late_beat5
       \<lparr> beatCount := 2, intervalId := Some 3,
         nextNoteTime := Fin (8106479329266893 / 2 ^ 51),
         clicks := [(Fin 0, True), (Fin (5404319552844595 / 2 ^ 53), True),
                    (Fin (5404319552844595 / 2 ^ 52), True),
                    (Fin (2026619832316723 / 2 ^ 50), True),
                    (Fin (5404319552844595 / 2 ^ 51), False), (Fin 3, False)],
         timeouts := [(2, StartMIDIRecordingCb, Fin 50), (3, SchedulerCb, Fin 25)],
         nextTimerId := 4 \<rparr>"

text \<open>
  The metronome after the fourth count-in beat and a \<open>stop()\<close>; after a new
  \<open>start(100, true)\<close> at clock reading 1.75 on the stopped one; and the stopped one
  after timers 4 and 6 have fired.
\<close>

definition restarted :: Metronome where
  "restarted =
     after_tick3
       \<lparr> isCountingIn := True, countInBeat := 1, recordingStarted := False,
         intervalId := Some 6, nextNoteTime := Fin (5291729562160333 / 2 ^ 51),
         clicks := [(Fin 0, True), (Fin (5404319552844595 / 2 ^ 53), True),
                    (Fin (5404319552844595 / 2 ^ 52), True),
                    (Fin (2026619832316723 / 2 ^ 50), True), (Fin (7 / 4), True)],
         timeouts := [(4, StartMIDIRecordingCb, Fin 50), (6, SchedulerCb, Fin 25)],
         nextTimerId := 7 \<rparr>"

definition stopped :: Metronome where
  "stopped =
     after_tick3
       \<lparr> isPlaying := False, recordingStarted := False, intervalId := None,
         timeouts := [(4, StartMIDIRecordingCb, Fin 50)] \<rparr>"

definition capture_started :: Metronome where
  "capture_started =
     stopped\<lparr> timeouts := [], nextTimerId := 7, captures := [Fin (7093169413108531 / 2 ^ 49)] \<rparr>"

section \<open>Rounding to a double\<close>

lemma roundEven_bounds:
  "real_of_int (roundEven y) \<le> y + 1 / 2" "y - 1 / 2 \<le> real_of_int (roundEven y)"
  unfolding roundEven_def Let_def by (auto; linarith)+

lemma roundEven_of_int [simp]: "roundEven (of_int n) = n"
  by (simp add: roundEven_def)

lemma roundEven_mono:
  assumes "y \<le> z"
  shows "roundEven y \<le> roundEven z"
proof (rule ccontr)
  assume "\<not> roundEven y \<le> roundEven z"
  then have "roundEven z + 1 \<le> roundEven y" by simp
  then have lt: "real_of_int (roundEven z) + 1 \<le> real_of_int (roundEven y)" by linarith
  from roundEven_bounds(1) [of y] roundEven_bounds(2) [of z] assms lt
  have "y = z" by linarith
  with \<open>\<not> roundEven y \<le> roundEven z\<close> show False by simp
qed

lemma roundEven_neg: "roundEven (- y) = - roundEven y"
proof (cases "y = of_int \<lfloor>y\<rfloor>")
  case True
  then obtain n :: int where "y = of_int n" ..
  then have "- y = of_int (- n)" by simp
  then show ?thesis unfolding \<open>y = of_int n\<close> by (simp only: roundEven_of_int)
next
  case False
  define f where "f = \<lfloor>y\<rfloor>"
  define r where "r = y - of_int f"
  have r: "0 < r" "r < 1" using False unfolding r_def f_def by linarith+
  have fm: "\<lfloor>- y\<rfloor> = - f - 1" unfolding f_def using False by linarith
  have rm: "- y - of_int \<lfloor>- y\<rfloor> = 1 - r" unfolding fm r_def by simp
  have a: "roundEven y = (if r < 1 / 2 then f else if 1 / 2 < r then f + 1 else if even f then f else f + 1)"
    unfolding roundEven_def Let_def f_def [symmetric] r_def [symmetric] ..
  have b: "roundEven (- y) = (if 1 - r < 1 / 2 then - f - 1 else if 1 / 2 < 1 - r then - f - 1 + 1
        else if even (- f - 1) then - f - 1 else - f - 1 + 1)"
    unfolding roundEven_def Let_def rm unfolding fm ..
  show ?thesis unfolding a b using r by auto
qed

lemma ulp_pos: "0 < ulp x"
  unfolding ulp_def by simp

lemma ulp_neg: "ulp (- x) = ulp x"
  unfolding ulp_def by simp

lemma p2_lt: "(2::real) powi a < 2 powi b \<Longrightarrow> a < b"
  by (rule ccontr) (simp add: not_less power_int_increasing [of b a 2] not_le [symmetric])

lemma p2_le: "a \<le> b \<Longrightarrow> (2::real) powi a \<le> 2 powi b"
  by (rule power_int_increasing) simp_all

lemma p2_nat: "(2::real) ^ n / 2 ^ 1074 = 2 powi (int n - 1074)"
proof -
  have "(2::real) powi (int n - 1074) = 2 powi (int n) / 2 powi 1074"
    by (rule power_int_diff) simp
  then show ?thesis by (simp only: power_int_of_nat power_int_numeral)
qed

lemma ulp_cases:
  "(ulp x = 2 powi (- 1074) \<and> \<bar>x\<bar> < 2 powi (- 1021))
   \<or> (\<exists>e. - 1074 < e \<and> ulp x = 2 powi e \<and> 2 powi (e + 52) \<le> \<bar>x\<bar> \<and> \<bar>x\<bar> < 2 powi (e + 53))"
proof -
  define P where "P = (2::real) ^ 1074"
  have P: "0 < P" unfolding P_def by (rule zero_less_power) simp
  define s where "s = \<lfloor>\<bar>x\<bar> * P\<rfloor>"
  define b where "b = bitlen s"
  have s0: "0 \<le> s" unfolding s_def using P by simp
  have sl: "real_of_int s \<le> \<bar>x\<bar> * P" unfolding s_def by linarith
  have su: "\<bar>x\<bar> * P < real_of_int (s + 1)" unfolding s_def by linarith
  have u: "ulp x = 2 powi (max b 53 - 1127)" unfolding ulp_def b_def s_def P_def ..
  have b0: "0 \<le> b" unfolding b_def by (rule bitlen_nonneg)
  have cv: "(2::real) ^ nat c / P = 2 powi (c - 1074)" if "0 \<le> c" for c
    unfolding P_def p2_nat using that by simp
  have up: "s + 1 \<le> 2 ^ nat b"
  proof (cases "0 < s")
    case True
    from bitlen_bounds [OF True] show ?thesis unfolding b_def by simp
  next
    case False
    with s0 have "s = 0" by simp
    then show ?thesis by simp
  qed
  then have "real_of_int (s + 1) \<le> real_of_int (2 ^ nat b)" by (simp only: of_int_le_iff)
  then have "real_of_int (s + 1) \<le> (2::real) ^ nat b" by simp
  with su have "\<bar>x\<bar> * P < 2 ^ nat b" by linarith
  then have "\<bar>x\<bar> < 2 ^ nat b / P" using P by (simp add: pos_less_divide_eq)
  then have xu: "\<bar>x\<bar> < 2 powi (b - 1074)" by (simp only: cv [OF b0])
  show ?thesis
  proof (cases "b \<le> 53")
    case True
    have "ulp x = 2 powi (- 1074)" unfolding u using True by (simp add: max_def)
    moreover have "(2::real) powi (b - 1074) \<le> 2 powi (- 1021)"
      by (rule p2_le) (use True in simp)
    ultimately show ?thesis using xu by linarith
  next
    case False
    then have b53: "53 < b" by simp
    then have "bitlen s \<noteq> 0" unfolding b_def by simp
    then have sp: "0 < s" by (simp add: bitlen_eq_zero_iff)
    have b1: "0 \<le> b - 1" using b53 by simp
    have "2 ^ nat (b - 1) \<le> s" using bitlen_bounds [OF sp] unfolding b_def by simp
    then have "real_of_int (2 ^ nat (b - 1)) \<le> real_of_int s" by (simp only: of_int_le_iff)
    then have "(2::real) ^ nat (b - 1) \<le> real_of_int s" by simp
    with sl have "2 ^ nat (b - 1) \<le> \<bar>x\<bar> * P" by linarith
    then have "2 ^ nat (b - 1) / P \<le> \<bar>x\<bar>" using P by (simp add: pos_divide_le_eq)
    then have xl: "2 powi (b - 1 - 1074) \<le> \<bar>x\<bar>" by (simp only: cv [OF b1])
    have ue: "ulp x = 2 powi (b - 1127)" unfolding u using b53 by (simp add: max_def)
    have e0: "- 1074 < b - 1127" using b53 by simp
    have e1: "b - 1127 + 52 = b - 1 - 1074" and e2: "b - 1127 + 53 = b - 1074" by simp_all
    have "- 1074 < b - 1127 \<and> ulp x = 2 powi (b - 1127)
        \<and> 2 powi (b - 1127 + 52) \<le> \<bar>x\<bar> \<and> \<bar>x\<bar> < 2 powi (b - 1127 + 53)"
      unfolding e1 e2 using e0 ue xl xu by (intro conjI)
    then show ?thesis by blast
  qed
qed

lemma ulp_eq:
  assumes "2 powi (e + 52) \<le> \<bar>x\<bar>" "\<bar>x\<bar> < 2 powi (e + 53)" "- 1074 \<le> e"
  shows "ulp x = 2 powi e"
  using ulp_cases [of x]
proof (elim disjE conjE exE)
  assume u: "ulp x = 2 powi (- 1074)" and "\<bar>x\<bar> < 2 powi (- 1021)"
  with assms(1) have "(2::real) powi (e + 52) < 2 powi (- 1021)" by simp
  then have "e + 52 < - 1021" by (rule p2_lt)
  with assms(3) have "e = - 1074" by simp
  with u show ?thesis by simp
next
  fix e'
  assume u: "ulp x = 2 powi e'" and l: "2 powi (e' + 52) \<le> \<bar>x\<bar>" and h: "\<bar>x\<bar> < 2 powi (e' + 53)"
  from assms(1) h have "(2::real) powi (e + 52) < 2 powi (e' + 53)" by simp
  then have "e + 52 < e' + 53" by (rule p2_lt)
  moreover from l assms(2) have "(2::real) powi (e' + 52) < 2 powi (e + 53)" by simp
  then have "e' + 52 < e + 53" by (rule p2_lt)
  ultimately have "e = e'" by simp
  with u show ?thesis by simp
qed

lemma ulp_subnormal:
  assumes "\<bar>x\<bar> < 2 powi (- 1021)"
  shows "ulp x = 2 powi (- 1074)"
  using ulp_cases [of x]
proof (elim disjE conjE exE)
  fix e
  assume e: "- 1074 < e" and l: "2 powi (e + 52) \<le> \<bar>x\<bar>"
  with assms have "(2::real) powi (e + 52) < 2 powi (- 1021)" by simp
  then have "e + 52 < - 1021" by (rule p2_lt)
  with e show ?thesis by simp
qed simp

lemma fl_error: "\<bar>fl x - x\<bar> \<le> ulp x / 2"
proof -
  define u where "u = ulp x"
  have u: "0 < u" unfolding u_def by (rule ulp_pos)
  define y where "y = x / u"
  have x: "x = y * u" unfolding y_def using u by simp
  have "\<bar>real_of_int (roundEven y) - y\<bar> \<le> 1 / 2"
    using roundEven_bounds [of y] by linarith
  then have "\<bar>real_of_int (roundEven y) - y\<bar> * u \<le> 1 / 2 * u"
    using u by (simp only: mult_le_cancel_right) simp
  moreover have "\<bar>real_of_int (roundEven y) * u - y * u\<bar> = \<bar>(real_of_int (roundEven y) - y) * u\<bar>"
    by (simp only: left_diff_distrib)
  then have "\<bar>real_of_int (roundEven y) - y\<bar> * u = \<bar>real_of_int (roundEven y) * u - y * u\<bar>"
    using u by (simp add: abs_mult)
  ultimately have "\<bar>real_of_int (roundEven y) * u - y * u\<bar> \<le> u / 2" by simp
  then show ?thesis
    unfolding fl_def u_def [symmetric] y_def [symmetric] x [symmetric] .
qed

lemma ulp_0: "ulp 0 = 2 powi (- 1074)"
  by (rule ulp_subnormal) simp

lemma fl_rel_error: "\<bar>fl x - x\<bar> \<le> \<bar>x\<bar> / 2 ^ 53 + ulp 0 / 2"
  using ulp_cases [of x]
proof (elim disjE conjE exE)
  assume "ulp x = 2 powi (- 1074)"
  then have "ulp x = ulp 0" by (simp only: ulp_0)
  moreover have "0 \<le> \<bar>x\<bar> / 2 ^ 53" by simp
  ultimately show ?thesis using fl_error [of x] by linarith
next
  fix e
  assume u: "ulp x = 2 powi e" and l: "2 powi (e + 52) \<le> \<bar>x\<bar>"
  have "(2::real) powi (e + 52) = 2 powi e * 2 ^ 52" by (simp add: power_int_add)
  with l u have "ulp x * 2 ^ 52 \<le> \<bar>x\<bar>" by simp
  then have "ulp x / 2 \<le> \<bar>x\<bar> / 2 ^ 53" by simp
  moreover have "0 \<le> ulp 0 / 2" using ulp_pos [of 0] by simp
  ultimately show ?thesis using fl_error [of x] by linarith
qed

lemma roundEven_0 [simp]: "roundEven 0 = 0"
  by (simp add: roundEven_def)

lemma fl_0 [simp]: "fl 0 = 0"
  by (simp add: fl_def)

lemma fl_neg: "fl (- x) = - fl x"
  by (simp add: fl_def ulp_neg roundEven_neg)

lemma fl_nonneg: "0 \<le> x \<Longrightarrow> 0 \<le> fl x"
proof -
  assume "0 \<le> x"
  then have "0 \<le> x / ulp x" using ulp_pos [of x] by simp
  then have "roundEven 0 \<le> roundEven (x / ulp x)" by (rule roundEven_mono)
  then have "0 \<le> roundEven (x / ulp x)" using roundEven_of_int [of 0] by simp
  then show ?thesis unfolding fl_def using ulp_pos [of x] by simp
qed

lemma mul_le_pos: "0 < c \<Longrightarrow> a * c \<le> b * c \<longleftrightarrow> a \<le> b" for a b c :: real
  by simp

lemma ulp_form:
  "\<exists>e. - 1074 \<le> e \<and> ulp x = 2 powi e \<and> \<bar>x\<bar> < 2 powi (e + 53)
       \<and> (e = - 1074 \<or> 2 powi (e + 52) \<le> \<bar>x\<bar>)"
  using ulp_cases [of x]
proof (elim disjE conjE exE)
  assume "ulp x = 2 powi (- 1074)" "\<bar>x\<bar> < 2 powi (- 1021)"
  then have "- 1074 \<le> (- 1074 :: int) \<and> ulp x = 2 powi (- 1074) \<and> \<bar>x\<bar> < 2 powi (- 1074 + 53)
       \<and> ((- 1074 :: int) = - 1074 \<or> 2 powi (- 1074 + 52) \<le> \<bar>x\<bar>)"
    by (intro conjI disjI1) simp_all
  then show ?thesis by (rule exI)
next
  fix e
  assume "- 1074 < e" "ulp x = 2 powi e" "2 powi (e + 52) \<le> \<bar>x\<bar>" "\<bar>x\<bar> < 2 powi (e + 53)"
  then have "- 1074 \<le> e \<and> ulp x = 2 powi e \<and> \<bar>x\<bar> < 2 powi (e + 53)
       \<and> (e = - 1074 \<or> 2 powi (e + 52) \<le> \<bar>x\<bar>)"
    by simp
  then show ?thesis by (rule exI)
qed

lemma p2_split: "(2::real) powi (e + int n) = 2 powi e * 2 ^ n"
  by (simp add: power_int_add)

lemma fl_upper:
  assumes "0 \<le> x" "ulp x = 2 powi e" "\<bar>x\<bar> < 2 powi (e + 53)"
  shows "fl x \<le> 2 powi (e + 53)"
proof -
  have u: "0 < (2::real) powi e" by simp
  have s: "(2::real) powi (e + 53) = 2 powi e * 2 ^ 53" using p2_split [of e 53] by simp
  have "x < 2 powi e * 2 ^ 53" using assms(1,3) unfolding s by simp
  then have "x / 2 powi e < 2 ^ 53" using u by (simp add: pos_divide_less_eq mult.commute)
  then have "x / 2 powi e \<le> real_of_int (2 ^ 53)" by simp
  then have "roundEven (x / 2 powi e) \<le> roundEven (real_of_int (2 ^ 53))"
    by (rule roundEven_mono)
  then have "roundEven (x / 2 powi e) \<le> 2 ^ 53" by (simp only: roundEven_of_int)
  then have "real_of_int (roundEven (x / 2 powi e)) \<le> real_of_int (2 ^ 53)"
    by (simp only: of_int_le_iff)
  then have "real_of_int (roundEven (x / 2 powi e)) \<le> 2 ^ 53" by simp
  then have "real_of_int (roundEven (x / 2 powi e)) * 2 powi e \<le> 2 ^ 53 * 2 powi e"
    using u by (simp only: mul_le_pos)
  then show ?thesis unfolding fl_def assms(2) s by (simp add: mult.commute)
qed

lemma fl_lower:
  assumes "ulp x = 2 powi e" "2 powi (e + 52) \<le> x"
  shows "2 powi (e + 52) \<le> fl x"
proof -
  have u: "0 < (2::real) powi e" by simp
  have s: "(2::real) powi (e + 52) = 2 powi e * 2 ^ 52" using p2_split [of e 52] by simp
  have "2 powi e * 2 ^ 52 \<le> x" using assms(2) unfolding s .
  then have "2 ^ 52 \<le> x / 2 powi e" using u by (simp add: pos_le_divide_eq mult.commute)
  then have "real_of_int (2 ^ 52) \<le> x / 2 powi e" by simp
  then have "roundEven (real_of_int (2 ^ 52)) \<le> roundEven (x / 2 powi e)"
    by (rule roundEven_mono)
  then have "2 ^ 52 \<le> roundEven (x / 2 powi e)" by (simp only: roundEven_of_int)
  then have "real_of_int (2 ^ 52) \<le> real_of_int (roundEven (x / 2 powi e))"
    by (simp only: of_int_le_iff)
  then have "2 ^ 52 \<le> real_of_int (roundEven (x / 2 powi e))" by simp
  then have "2 ^ 52 * 2 powi e \<le> real_of_int (roundEven (x / 2 powi e)) * 2 powi e"
    using u by (simp only: mul_le_pos)
  then show ?thesis unfolding fl_def assms(1) s by (simp add: mult.commute)
qed

lemma fl_mono_nonneg:
  assumes "0 \<le> x" "x \<le> y"
  shows "fl x \<le> fl y"
proof -
  from ulp_form [of x] obtain ex where
    ex: "- 1074 \<le> ex" "ulp x = 2 powi ex" "\<bar>x\<bar> < 2 powi (ex + 53)"
      "ex = - 1074 \<or> 2 powi (ex + 52) \<le> \<bar>x\<bar>" by blast
  from ulp_form [of y] obtain ey where
    ey: "- 1074 \<le> ey" "ulp y = 2 powi ey" "\<bar>y\<bar> < 2 powi (ey + 53)"
      "ey = - 1074 \<or> 2 powi (ey + 52) \<le> \<bar>y\<bar>" by blast
  have ax: "\<bar>x\<bar> = x" and ay: "\<bar>y\<bar> = y" using assms by simp_all
  have le: "ex \<le> ey"
  proof (rule ccontr)
    assume "\<not> ex \<le> ey"
    then have lt: "ey < ex" by simp
    with ey(1) ex(4) have "2 powi (ex + 52) \<le> x" unfolding ax by simp
    with assms(2) ey(3) have "(2::real) powi (ex + 52) < 2 powi (ey + 53)" unfolding ay by simp
    then have "ex + 52 < ey + 53" by (rule p2_lt)
    with lt show False by simp
  qed
  show ?thesis
  proof (cases "ex = ey")
    case True
    have u: "0 < (2::real) powi ey" by simp
    have "x / 2 powi ey \<le> y / 2 powi ey" using assms(2) u by (simp add: divide_right_mono)
    then have "roundEven (x / 2 powi ey) \<le> roundEven (y / 2 powi ey)" by (rule roundEven_mono)
    then have "real_of_int (roundEven (x / 2 powi ey)) \<le> real_of_int (roundEven (y / 2 powi ey))"
      by simp
    then have "real_of_int (roundEven (x / 2 powi ey)) * 2 powi ey
        \<le> real_of_int (roundEven (y / 2 powi ey)) * 2 powi ey"
      using u by (simp only: mul_le_pos)
    then show ?thesis unfolding fl_def ex(2) ey(2) True .
  next
    case False
    with le have lt: "ex < ey" by simp
    with ex(1) ey(4) have "2 powi (ey + 52) \<le> y" unfolding ay by simp
    from fl_lower [OF ey(2) this] have l: "2 powi (ey + 52) \<le> fl y" .
    from fl_upper [OF assms(1) ex(2) ex(3)] have h: "fl x \<le> 2 powi (ex + 53)" .
    have "(2::real) powi (ex + 53) \<le> 2 powi (ey + 52)" by (rule p2_le) (use lt in simp)
    with l h show ?thesis by linarith
  qed
qed

lemma fl_nonpos: "x \<le> 0 \<Longrightarrow> fl x \<le> 0"
  using fl_nonneg [of "- x"] by (simp add: fl_neg)

lemma fl_mono:
  assumes "x \<le> y"
  shows "fl x \<le> fl y"
proof (cases "0 \<le> x")
  case True
  then show ?thesis using assms by (rule fl_mono_nonneg)
next
  case False
  then have x: "x \<le> 0" by simp
  show ?thesis
  proof (cases "0 \<le> y")
    case True
    from fl_nonpos [OF x] fl_nonneg [OF True] show ?thesis by linarith
  next
    case False
    then have "0 \<le> - y" "- y \<le> - x" using assms by simp_all
    from fl_mono_nonneg [OF this] show ?thesis by (simp add: fl_neg)
  qed
qed

lemma fl_repr:
  assumes "\<bar>m\<bar> \<le> 2 ^ 53" "- 1074 \<le> e"
  shows "fl (real_of_int m * 2 powi e) = real_of_int m * 2 powi e"
proof -
  define x where "x = real_of_int m * 2 powi e"
  from ulp_form [of x] obtain a where
    a: "- 1074 \<le> a" "ulp x = 2 powi a" "\<bar>x\<bar> < 2 powi (a + 53)"
      "a = - 1074 \<or> 2 powi (a + 52) \<le> \<bar>x\<bar>" by blast
  have ax: "\<bar>x\<bar> = real_of_int \<bar>m\<bar> * 2 powi e" unfolding x_def by (simp add: abs_mult)
  have "\<exists>n. x / 2 powi a = real_of_int n"
  proof (cases "a \<le> e")
    case True
    have "x / 2 powi a = real_of_int m * (2 powi e / 2 powi a)" unfolding x_def by simp
    also have "2 powi e / 2 powi a = (2::real) powi (e - a)" by (simp add: power_int_diff)
    also have "\<dots> = 2 ^ nat (e - a)" using True by (simp add: power_int_def)
    also have "real_of_int m * 2 ^ nat (e - a) = real_of_int (m * 2 ^ nat (e - a))" by simp
    finally show ?thesis by (rule exI)
  next
    case False
    then have lt: "e < a" by simp
    with assms(2) a(4) have l: "2 powi (a + 52) \<le> \<bar>x\<bar>" by simp
    have pe: "0 < (2::real) powi e" by simp
    have "real_of_int \<bar>m\<bar> \<le> real_of_int (2 ^ 53)" using assms(1) by (simp only: of_int_le_iff)
    then have "real_of_int \<bar>m\<bar> \<le> 2 ^ 53" by simp
    then have "real_of_int \<bar>m\<bar> * 2 powi e \<le> 2 ^ 53 * 2 powi e"
      using pe by (simp only: mul_le_pos)
    then have h: "\<bar>x\<bar> \<le> 2 powi (e + 53)" unfolding ax using p2_split [of e 53] by (simp add: mult.commute)
    have "a + 52 \<le> e + 53"
    proof (rule ccontr)
      assume "\<not> a + 52 \<le> e + 53"
      then have "(2::real) powi (e + 53) < 2 powi (a + 52)"
        by (intro power_int_strict_increasing) simp_all
      with l h show False by linarith
    qed
    with lt have ae: "a = e + 1" by simp
    have "(2::real) powi (e + 53) \<le> real_of_int \<bar>m\<bar> * 2 powi e"
      using l unfolding ax ae by (simp add: add.commute add.left_commute)
    then have "2 ^ 53 * 2 powi e \<le> real_of_int \<bar>m\<bar> * 2 powi e"
      using p2_split [of e 53] by (simp add: mult.commute)
    then have "(2::real) ^ 53 \<le> real_of_int \<bar>m\<bar>" using pe by (simp only: mul_le_pos)
    then have "real_of_int (2 ^ 53) \<le> real_of_int \<bar>m\<bar>" by simp
    then have "2 ^ 53 \<le> \<bar>m\<bar>" by (simp only: of_int_le_iff)
    with assms(1) have "\<bar>m\<bar> = 2 ^ 53" by simp
    then have "m = 2 * 2 ^ 52 \<or> m = - (2 * 2 ^ 52)" by (simp add: abs_if split: if_splits)
    then obtain k :: int where k: "m = 2 * k" by auto
    have "(2::real) powi a = 2 * 2 powi e" unfolding ae using p2_split [of e 1] by simp
    then have "x / 2 powi a = real_of_int k" unfolding x_def k by simp
    then show ?thesis by (rule exI)
  qed
  then obtain n where n: "x / 2 powi a = real_of_int n" ..
  then have xn: "x = real_of_int n * 2 powi a" by (simp add: field_simps)
  have "fl x = real_of_int (roundEven (real_of_int n)) * 2 powi a"
    unfolding fl_def a(2) n ..
  also have "\<dots> = x" unfolding xn by (simp only: roundEven_of_int)
  finally show ?thesis unfolding x_def .
qed

lemma fl_int: "\<bar>m\<bar> \<le> 2 ^ 53 \<Longrightarrow> fl (real_of_int m) = real_of_int m"
  using fl_repr [of m 0] by simp

lemma fl_dyadic: "\<bar>m\<bar> \<le> 2 ^ 53 \<Longrightarrow> k \<le> 1074 \<Longrightarrow> fl (real_of_int m / 2 ^ k) = real_of_int m / 2 ^ k"
proof -
  assume a: "\<bar>m\<bar> \<le> 2 ^ 53" "k \<le> 1074"
  have "(2::real) powi (- int k) = 1 / 2 ^ k" by (simp add: power_int_minus_divide)
  with fl_repr [OF a(1), of "- int k"] a(2) show ?thesis by simp
qed

lemma fl_eval:
  assumes "2 powi j \<le> \<bar>x\<bar>" "\<bar>x\<bar> < 2 powi (j + 1)" "- 1022 \<le> j"
  shows "fl x = real_of_int (roundEven (x / 2 powi (j - 52))) * 2 powi (j - 52)"
proof -
  have e: "j - 52 + 52 = j" "j - 52 + 53 = j + 1" by simp_all
  have "ulp x = 2 powi (j - 52)"
  proof (rule ulp_eq)
    show "2 powi (j - 52 + 52) \<le> \<bar>x\<bar>" unfolding e by (rule assms(1))
    show "\<bar>x\<bar> < 2 powi (j - 52 + 53)" unfolding e by (rule assms(2))
    show "- 1074 \<le> j - 52" using assms(3) by simp
  qed
  then show ?thesis unfolding fl_def by simp
qed


lemma rnd_Fin:
  assumes "\<bar>x\<bar> \<le> 2 ^ 62"
  shows "rnd x = Fin (fl x)"
proof -
  define B where "B = (2::real) ^ 62"
  have r: "fl B = B" unfolding B_def using fl_repr [of 1 62] by simp
  have a: "x \<le> B" "- B \<le> x" using assms unfolding B_def by linarith+
  have "fl x \<le> fl B" by (rule fl_mono [OF a(1)])
  moreover have "fl (- B) \<le> fl x" by (rule fl_mono [OF a(2)])
  ultimately have b: "- B \<le> fl x" "fl x \<le> B" unfolding fl_neg r by simp_all
  have "B < 2 ^ 1024" unfolding B_def by (rule power_strict_increasing) simp_all
  with b have "\<not> 2 ^ 1024 \<le> fl x" "\<not> fl x \<le> - (2 ^ 1024)" by linarith+
  then show ?thesis unfolding rnd_def Let_def by (simp only: if_False)
qed

lemma isDouble_iff: "isDouble x \<longleftrightarrow> fl x = x \<and> \<bar>x\<bar> < 2 ^ 1024"
  unfolding isDouble_def rnd_def Let_def by (auto split: if_splits)

lemma isDouble_dyadic:
  assumes "\<bar>m\<bar> \<le> 2 ^ 53" "k \<le> 1074"
  shows "isDouble (real_of_int m / 2 ^ k)"
proof -
  have f: "fl (real_of_int m / 2 ^ k) = real_of_int m / 2 ^ k" by (rule fl_dyadic [OF assms])
  have "real_of_int \<bar>m\<bar> \<le> real_of_int (2 ^ 53)" using assms(1) by (simp only: of_int_le_iff)
  then have m: "\<bar>real_of_int m\<bar> \<le> 2 ^ 53" by simp
  have "\<bar>real_of_int m / 2 ^ k\<bar> = \<bar>real_of_int m\<bar> / 2 ^ k" by simp
  also have "\<dots> \<le> \<bar>real_of_int m\<bar>" by (simp add: divide_le_eq_1 field_simps mult_le_cancel_left1)
  finally have "\<bar>real_of_int m / 2 ^ k\<bar> \<le> 2 ^ 62" using m by simp
  from rnd_Fin [OF this] show ?thesis unfolding isDouble_def f .
qed

lemma isDouble_int: "\<bar>m\<bar> \<le> 2 ^ 53 \<Longrightarrow> isDouble (real_of_int m)"
  using isDouble_dyadic [of m 0] by simp

lemma rnd_double: "isDouble x \<Longrightarrow> rnd x = Fin x"
  by (simp add: isDouble_def)

lemma isDouble_fl: "isDouble x \<Longrightarrow> fl x = x"
  by (simp add: isDouble_iff)

lemma jsSub_Fin [simp]: "jsSub (Fin a) (Fin b) = rnd (a - b)"
  by (simp add: jsSub_def)

lemma fl_between:
  assumes "a \<le> x" "x \<le> b" "fl a = a" "fl b = b"
  shows "a \<le> fl x" "fl x \<le> b"
  using fl_mono [OF assms(1)] fl_mono [OF assms(2)] assms(3,4) by simp_all

lemma lit_9_6: "fl (96 / 10) = 5404319552844595 / 2 ^ 49"
  using fl_eval [of 3 "96 / 10"] by (simp add: roundEven_def)

lemma lit_0_1: "fl (1 / 10) = 7205759403792794 / 2 ^ 56"
  using fl_eval [of "- 4" "1 / 10"] by (simp add: roundEven_def)

lemma rnd_dyadic:
  "\<bar>m\<bar> \<le> 2 ^ 53 \<Longrightarrow> k \<le> 1074 \<Longrightarrow> rnd (real_of_int m / 2 ^ k) = Fin (real_of_int m / 2 ^ k)"
  by (rule rnd_double) (rule isDouble_dyadic)

lemma rnd_int: "\<bar>m\<bar> \<le> 2 ^ 53 \<Longrightarrow> rnd (real_of_int m) = Fin (real_of_int m)"
  by (rule rnd_double) (rule isDouble_int)

lemma rnd_0: "rnd 0 = Fin 0"
  using rnd_int [of 0] by simp

lemma rnd_1: "rnd 1 = Fin 1"
  using rnd_int [of 1] by simp

lemma rnd_numeral: "(numeral k :: int) \<le> 2 ^ 53 \<Longrightarrow> rnd (numeral k) = Fin (numeral k)"
  using rnd_int [of "numeral k"] by simp

lemma rnd_neg_numeral:
  "(numeral k :: int) \<le> 2 ^ 53 \<Longrightarrow> rnd (- numeral k) = Fin (- numeral k)"
  using rnd_int [of "- numeral k"] by simp

lemmas rnd_simps = rnd_0 rnd_1 rnd_numeral rnd_neg_numeral


lemma fl_gt: "a < b \<Longrightarrow> b \<le> x \<Longrightarrow> fl b = b \<Longrightarrow> a < fl x"
  using fl_mono [of b x] by simp

lemma fl_le: "x \<le> b \<Longrightarrow> fl b = b \<Longrightarrow> fl x \<le> b"
  using fl_mono [of x b] by simp


lemma rnd_neg: "rnd (- x) = jsNeg (rnd x)"
proof -
  define B where "B = (2::real) ^ 1024"
  have B: "0 < B" unfolding B_def by (rule zero_less_power) simp
  show ?thesis
    unfolding rnd_def Let_def fl_neg B_def [symmetric] using B by auto
qed

section \<open>The recording session\<close>

lemma clearAllTimers_fields [simp]:
  "isRecording (clearAllTimers r) = isRecording r"
  "recordedNotes (clearAllTimers r) = recordedNotes r"
  "wasCanceled (clearAllTimers r) = wasCanceled r"
  "startTime (clearAllTimers r) = startTime r"
  "mode (clearAllTimers r) = mode r"
  "silenceTimeout (clearAllTimers r) = None"
  "internalTimeout (clearAllTimers r) = None"
  by (simp_all add: clearAllTimers_def clearTimeoutR_def Let_def split: option.splits)

lemma clearAllState_fields [simp]:
  "isRecording (clearAllState r) = isRecording r"
  "recordedNotes (clearAllState r) = []"
  "wasCanceled (clearAllState r) = wasCanceled r"
  by (simp_all add: clearAllState_def)

lemma idle_empty_applyOp:
  "\<not> isRecording r \<Longrightarrow> recordedNotes r = [] \<Longrightarrow>
   \<not> isRecording (applyOp x r) \<and> recordedNotes (applyOp x r) = []"
  by (cases x)
     (simp_all add: addNote_def stopRecording_def cancelRecording_def fireTimeoutR_def
        clearTimeoutR_def split: option.splits)

lemma idle_empty_applyOps:
  "\<not> isRecording r \<Longrightarrow> recordedNotes r = [] \<Longrightarrow>
   \<not> isRecording (applyOps xs r) \<and> recordedNotes (applyOps xs r) = []"
proof (induction xs arbitrary: r)
  case Nil
  then show ?case by simp
next
  case (Cons x xs)
  from idle_empty_applyOp [OF Cons.prems] show ?case
    by (simp add: Cons.IH)
qed

text \<open>
  C6 (empty capture). With no captured event, both export entry points,
  \<open>convertToMidiBlob\<close> and \<open>createPlaybackMidiBlob\<close>, raise the error at once: the result is
  the error value and carries no file bytes.
\<close>

theorem empty_capture_error:
  "recordedNotes r = [] \<Longrightarrow>
     convertToMidiBlob r = Inl NoNotesRecorded \<and> createPlaybackMidiBlob r = Inl NoNotesRecorded"
  by (simp add: convertToMidiBlob_def createPlaybackMidiBlob_def)

theorem empty_capture_error_witness:
  "recordedNotes newMidiRecorder = [] \<and>
   convertToMidiBlob newMidiRecorder = Inl NoNotesRecorded \<and>
   createPlaybackMidiBlob newMidiRecorder = Inl NoNotesRecorded"
proof -
  have h: "recordedNotes newMidiRecorder = []" by (simp add: newMidiRecorder_def)
  from empty_capture_error [OF h] h show ?thesis by simp
qed

text \<open>
  C7 (cancellation discards data). After \<open>cancelRecording\<close> on an active session the
  captured list is empty and the canceled flag is set; and after any further sequence of
  \<open>addNote\<close>, \<open>stopRecording\<close>, \<open>cancelRecording\<close> calls and timer firings, a
  \<open>stopRecording\<close> returns nothing, the list is still empty, and both exports raise
  the empty-capture error, so no event captured before the cancel is returned or encoded.
\<close>

theorem cancel_discards_events:
  assumes "isRecording r"
  shows "recordedNotes (fst (cancelRecording r)) = []
       \<and> wasCanceled (fst (cancelRecording r))
       \<and> snd (stopRecording (applyOps ops (fst (cancelRecording r)))) = None
       \<and> recordedNotes (applyOps ops (fst (cancelRecording r))) = []
       \<and> convertToMidiBlob (applyOps ops (fst (cancelRecording r))) = Inl NoNotesRecorded
       \<and> createPlaybackMidiBlob (applyOps ops (fst (cancelRecording r))) = Inl NoNotesRecorded"
proof -
  let ?c = "fst (cancelRecording r)"
  have c: "\<not> isRecording ?c" "recordedNotes ?c = []" "wasCanceled ?c"
    using assms by (simp_all add: cancelRecording_def Let_def)
  from idle_empty_applyOps [OF c(1) c(2), of ops]
  have a: "\<not> isRecording (applyOps ops ?c)" "recordedNotes (applyOps ops ?c) = []"
    by simp_all
  show ?thesis
    using c a by (simp add: stopRecording_def convertToMidiBlob_def createPlaybackMidiBlob_def)
qed

lemma session_two_notes_eq:
  "session_two_notes =
     \<lparr> isRecording = True, recordedNotes = scenario_notes,
       startTime = Some (Fin 1000), recordingDuration = Fin 2000, silenceTimeout = None,
       mode = ''time'', wasCanceled = False, internalTimeout = Some 1,
       pendingTimeouts = [(1, InternalTimeoutCb, Fin 2000)], nextTimeoutId = 2 \<rparr>"
proof -
  have h: "rnd (1 / 2) = Fin (1 / 2)" using rnd_dyadic [of 1 1] by simp
  show ?thesis
    by (simp add: session_two_notes_def scenario_notes_def startRecording_def addNote_def
          newMidiRecorder_def clearAllState_def clearAllTimers_def setTimeoutR_def Let_def
          rnd_simps h)
qed

text \<open>
  A session with two captured events, then cancelled; a late \<open>addNote\<close> and the firing
  of the (already cleared) duration timer change nothing.
\<close>

theorem cancel_discards_events_witness:
  "isRecording session_two_notes \<and> length (recordedNotes session_two_notes) = 2
   \<and> recordedNotes (fst (cancelRecording session_two_notes)) = []
   \<and> wasCanceled (fst (cancelRecording session_two_notes))
   \<and> snd (stopRecording (applyOps [AddNote 64 90 (Fin 1700) True, FireTimeout 1]
          (fst (cancelRecording session_two_notes)))) = None
   \<and> recordedNotes (applyOps [AddNote 64 90 (Fin 1700) True, FireTimeout 1]
          (fst (cancelRecording session_two_notes))) = []
   \<and> convertToMidiBlob (applyOps [AddNote 64 90 (Fin 1700) True, FireTimeout 1]
          (fst (cancelRecording session_two_notes))) = Inl NoNotesRecorded
   \<and> createPlaybackMidiBlob (applyOps [AddNote 64 90 (Fin 1700) True, FireTimeout 1]
          (fst (cancelRecording session_two_notes))) = Inl NoNotesRecorded"
proof -
  have a: "isRecording session_two_notes" "length (recordedNotes session_two_notes) = 2"
    by (simp_all add: session_two_notes_eq scenario_notes_def)
  from cancel_discards_events [OF a(1), of "[AddNote 64 90 (Fin 1700) True, FireTimeout 1]"] a
  show ?thesis by simp
qed

text \<open>
  C10 (cancel without an active session). When no recording is active,
  \<open>cancelRecording\<close> returns early with \<open>undefined\<close> and leaves the recorder exactly as
  it was: the canceled flag is not set and the captured events are kept. In particular,
  after \<open>stopRecording\<close> has ended an active session (returning its events), a cancel
  attempt changes nothing, and \<open>convertToMidiBlob\<close> still encodes the events of the
  stopped session.
\<close>

theorem cancel_when_inactive:
  "(\<not> isRecording r \<longrightarrow> cancelRecording r = (r, None))
   \<and> (isRecording r \<longrightarrow>
        (let stopped = fst (stopRecording r); after = fst (cancelRecording stopped)
         in snd (stopRecording r) = Some (recordedNotes r)
            \<and> snd (cancelRecording stopped) = None
            \<and> after = stopped
            \<and> wasCanceled after = wasCanceled r
            \<and> recordedNotes after = recordedNotes r
            \<and> convertToMidiBlob after =
                (if recordedNotes r = [] then Inl NoNotesRecorded
                 else Inr (createMidiData (recordedNotes r)))))"
  by (simp add: cancelRecording_def stopRecording_def convertToMidiBlob_def Let_def)

text \<open>The same on the session with two captured events.\<close>

theorem cancel_when_inactive_witness:
  "isRecording session_two_notes
   \<and> \<not> isRecording (fst (stopRecording session_two_notes))
   \<and> cancelRecording (fst (stopRecording session_two_notes))
        = (fst (stopRecording session_two_notes), None)
   \<and> snd (stopRecording session_two_notes) = Some (recordedNotes session_two_notes)
   \<and> \<not> wasCanceled (fst (cancelRecording (fst (stopRecording session_two_notes))))
   \<and> length (recordedNotes (fst (cancelRecording (fst (stopRecording session_two_notes))))) = 2
   \<and> convertToMidiBlob (fst (cancelRecording (fst (stopRecording session_two_notes))))
        = Inr (createMidiData (recordedNotes session_two_notes))"
proof -
  have a: "isRecording session_two_notes" "recordedNotes session_two_notes \<noteq> []"
    "\<not> wasCanceled session_two_notes" "length (recordedNotes session_two_notes) = 2"
    by (simp_all add: session_two_notes_eq scenario_notes_def)
  have b: "\<not> isRecording (fst (stopRecording session_two_notes))"
    by (simp add: stopRecording_def Let_def)
  from cancel_when_inactive [of session_two_notes]
       cancel_when_inactive [of "fst (stopRecording session_two_notes)"] a b
  show ?thesis by (simp add: Let_def)
qed

section \<open>The codec: encoding and decoding\<close>

lemma and127: "(v::int) AND 0x7f = v mod 128"
  using take_bit_eq_mask [of 7 v] by (simp add: take_bit_eq_mod mask_eq_exp_minus_1)

lemma contByte: "((v::int) AND 0x7f) OR 0x80 = v mod 128 + 128"
proof -
  have "\<not> bit (take_bit 7 v) 7"
    by (simp only: bit_take_bit_iff) simp
  then have "take_bit 7 v AND 2 ^ 7 = 0"
    by (simp only: and_exp_eq_0_iff_not_bit not_False_eq_True)
  then have "take_bit 7 v + 2 ^ 7 = take_bit 7 v OR 2 ^ 7"
    by (rule disjunctive_add_eq_or)
  then show ?thesis
    by (simp add: and127 take_bit_eq_mod)
qed

lemma vlqLoop_pos: "0 < v \<Longrightarrow> vlqLoop v bs = vlqLoop (v div 128) ((v mod 128 + 128) # bs)"
  using vlqLoop.simps [of v bs] by (simp add: contByte drop_bit_eq_div)

lemma vlqLoop_nonpos: "v \<le> 0 \<Longrightarrow> vlqLoop v bs = bs"
  using vlqLoop.simps [of v bs] by simp

lemma vlqLoop_append: "vlqLoop v bs = vlqLoop v [] @ bs"
proof (induction "nat v" arbitrary: v bs rule: less_induct)
  case less
  show ?case
  proof (cases "0 < v")
    case True
    let ?x = "v mod 128 + 128"
    have lt: "nat (v div 128) < nat v" using True by simp
    have "vlqLoop v bs = vlqLoop (v div 128) (?x # bs)" by (rule vlqLoop_pos [OF True])
    also have "\<dots> = vlqLoop (v div 128) [] @ (?x # bs)" by (rule less.hyps [OF lt])
    also have "\<dots> = (vlqLoop (v div 128) [] @ [?x]) @ bs" by simp
    also have "vlqLoop (v div 128) [] @ [?x] = vlqLoop (v div 128) [?x]"
      by (rule less.hyps [OF lt, symmetric])
    also have "\<dots> = vlqLoop v []" by (rule vlqLoop_pos [OF True, symmetric])
    finally show ?thesis .
  next
    case False
    then show ?thesis by (simp add: vlqLoop_nonpos)
  qed
qed




lemma int32_id: "0 \<le> v \<Longrightarrow> v < 2 ^ 31 \<Longrightarrow> int32 v = v"
  unfolding int32_def
  by (simp add: signed_take_bit_int_eq_self)

lemma toInt32_of_int [simp]: "toInt32 (Fin (real_of_int v)) = int32 v"
  by simp

lemma variableLengthQuantity_eq:
  "0 \<le> v \<Longrightarrow> v < 2 ^ 31 \<Longrightarrow>
   variableLengthQuantity (Fin (real_of_int v)) = vlqLoop (v div 128) [] @ [v mod 128]"
  using vlqLoop_append [of "v div 128" "[v mod 128]"]
  by (simp add: variableLengthQuantity_def int32_id and127 drop_bit_eq_div)






lemma noteLoop_eq:
  "noteLoop ns ct evs =
     (evs @ concat (map2 eventBytes (deltas ns ct) ns), lastTime ns ct)"
proof (induction ns arbitrary: ct evs)
  case Nil
  show ?case by (simp add: lastTime_def)
next
  case (Cons n ns)
  have "lastTime (n # ns) ct = lastTime ns (time n)"
    by (simp add: lastTime_def)
  then show ?case
    by (simp add: Cons.IH eventBytes_def Let_def)
qed








lemma ulp_0_small: "ulp 0 \<le> 1 / 2 ^ 60"
proof -
  have "(2::real) powi (- 1074) \<le> 2 powi (- 60)" by (rule p2_le) simp
  then show ?thesis unfolding ulp_0 by (simp add: power_int_minus_divide)
qed


















lemma length_deltas [simp]: "length (deltas ns ct) = length ns"
  by (induction ns arbitrary: ct) simp_all






lemma int_div128_less:
  assumes "0 \<le> v" "v < 128 * c"
  shows "v div 128 < (c::int)"
proof -
  define q where "q = v div 128"
  define r where "r = v mod 128"
  have "v = 128 * q + r" by (simp add: q_def r_def)
  moreover have "0 \<le> r" by (simp add: r_def)
  ultimately have "q < c" using assms(2) by linarith
  then show ?thesis by (simp only: q_def)
qed
















lemma rnd_9_6: "rnd (96 / 10) = Fin (5404319552844595 / 2 ^ 49)"
proof -
  have "rnd (96 / 10) = Fin (fl (96 / 10))" by (rule rnd_Fin) simp
  then show ?thesis unfolding lit_9_6 .
qed

lemma rnd_third: "rnd (1 / 256) = Fin (1 / 256)" "rnd (5 / 8) = Fin (5 / 8)"
    "rnd (1 / 128) = Fin (1 / 128)" "rnd (3 / 256) = Fin (3 / 256)" "rnd (1 / 64) = Fin (1 / 64)"
  using rnd_dyadic [of 1 8] rnd_dyadic [of 5 3] rnd_dyadic [of 1 7] rnd_dyadic [of 3 8]
    rnd_dyadic [of 1 6]
  by simp_all








lemma vlq_small: "0 \<le> v \<Longrightarrow> v < 128 \<Longrightarrow> variableLengthQuantity (Fin (real_of_int v)) = [v]"
proof -
  assume a: "0 \<le> v" "v < 128"
  then have "v < 2 ^ 31" by simp
  from variableLengthQuantity_eq [OF a(1) this] a show ?thesis
    by (simp add: vlqLoop_nonpos)
qed

lemma vlq_two: "128 \<le> v \<Longrightarrow> v < 16384 \<Longrightarrow>
    variableLengthQuantity (Fin (real_of_int v)) = [v div 128 + 128, v mod 128]"
proof -
  assume a: "128 \<le> v" "v < 16384"
  then have b: "0 \<le> v" "v < 2 ^ 31" by simp_all
  have q: "0 < v div 128" "v div 128 < 128"
    using a int_div128_less [of v 128] by (simp_all add: pos_imp_zdiv_pos_iff)
  then have m: "v div 128 mod 128 = v div 128" "v div 128 div 128 = 0" by simp_all
  show ?thesis
    by (simp add: variableLengthQuantity_eq [OF b] vlqLoop_pos [OF q(1)] m vlqLoop_nonpos)
qed

lemma vlq_0: "variableLengthQuantity (Fin 0) = [0]"
  using vlq_small [of 0] by simp

lemma playback_structure:
  "createPlaybackTrackData notes =
     Uint8Array ([0x00, 0x90, 127, 1]
       @ concat (map2 eventBytes (deltas (normalizedNotes notes) (Fin 0)) (normalizedNotes notes))
       @ variableLengthQuantity (remainingTicks (lastTime (normalizedNotes notes) (Fin 0)))
       @ [0x80, 127, 0, 0x00, 0xff, 0x2f, 0x00])"
  by (simp add: createPlaybackTrackData_def noteLoop_eq Let_def vlq_0)

lemma deltas_nonneg: "\<forall>d\<in>set (deltas ns ct). d = NaN \<or> \<not> jsLess d (Fin 0)"
proof (induction ns arbitrary: ct)
  case Nil
  show ?case by simp
next
  case (Cons n ns)
  have "Math_max (Fin 0) x = NaN \<or> \<not> jsLess (Math_max (Fin 0) x) (Fin 0)" for x
    by (cases x) (simp_all add: Math_max_def)
  with Cons.IH show ?case by simp
qed

lemma late_normalized: "normalizedNotes late_notes = late_notes"
  by (simp add: normalizedNotes_def sortNotes_def compareTime_def late_notes_def rnd_simps)

lemma late_remaining: "remainingTicks (Fin 10) = Fin (- 64)"
proof -
  have e: "5404319552844595 / 2 ^ 49 - 10 = real_of_int (- 225179981368525) / 2 ^ 49" by simp
  have s: "jsSub (rnd (96 / 10)) (Fin 10) = Fin (real_of_int (- 225179981368525) / 2 ^ 49)"
    unfolding rnd_9_6 jsSub_Fin e by (rule rnd_dyadic) simp_all
  have e2: "real_of_int (- 225179981368525) / 2 ^ 49 * 160
      = real_of_int (- 1125899906842625) / 2 ^ 44" by simp
  have m: "jsMul (jsSub (rnd (96 / 10)) (Fin 10)) (Fin 160)
      = Fin (real_of_int (- 1125899906842625) / 2 ^ 44)"
    unfolding s jsMul.simps e2 by (rule rnd_dyadic) simp_all
  show ?thesis
    unfolding remainingTicks_def Let_def m by simp
qed

text \<open>
  C5 (delta times are never negative) at an input where the code breaks it. Every delta
  of the note loop is clamped (\<open>deltas_nonneg\<close>), in both encoders. The delta before the
  closing sustain note-off of the playback-padded encoder is not: for a note-on at 0 s
  and a note-off at 10 s, \<open>remainingTicks\<close> is \<open>- 64\<close>, and
  \<open>variableLengthQuantity\<close> writes the low seven bits of its two's complement, the
  single byte 64, into the track.
\<close>

theorem playback_negative_delta:
  "remainingTicks (lastTime (normalizedNotes late_notes) (Fin 0)) = Fin (- 64)
   \<and> variableLengthQuantity (Fin (- 64)) = [64]
   \<and> createPlaybackTrackData late_notes =
       [0, 144, 127, 1, 0, 144, 60, 100, 140, 64, 128, 60, 0, 64, 128, 127, 0, 0, 255, 47, 0]"
proof -
  note n = late_normalized
  have r: "remainingTicks (lastTime late_notes (Fin 0)) = Fin (- 64)"
    using late_remaining by (simp add: lastTime_def late_notes_def)
  have v: "variableLengthQuantity (Fin (- 64)) = [64]"
    by (simp add: variableLengthQuantity_def int32_def vlqLoop_nonpos)
  have d: "deltas late_notes (Fin 0) = [Fin 0, Fin 1600]"
    by (simp add: late_notes_def rnd_simps Math_max_def)
  have v1600: "variableLengthQuantity (Fin 1600) = [140, 64]"
    using vlq_two [of 1600] by simp
  have "createPlaybackTrackData late_notes =
       [0, 144, 127, 1, 0, 144, 60, 100, 140, 64, 128, 60, 0, 64, 128, 127, 0, 0, 255, 47, 0]"
    unfolding playback_structure n r d v
    by (simp add: late_notes_def eventBytes_def vlq_0 v1600 Uint8Array_def)
  with r v n show ?thesis by simp
qed

lemma padding_normalized: "normalizedNotes padding_notes = padding_notes"
  by (simp add: normalizedNotes_def sortNotes_def compareTime_def padding_notes_def
        rnd_simps rnd_third rnd_neg)

lemma padding_deltas: "deltas padding_notes (Fin 0) = [Fin 0, Fin 1, Fin 1, Fin 1]"
  by (simp add: padding_notes_def rnd_simps rnd_third Math_max_def)

lemma padding_remaining: "remainingTicks (Fin (3 / 256)) = Fin 1534"
proof -
  have e: "5404319552844595 / 2 ^ 49 - 3 / 256 = real_of_int 5397722483077939 / 2 ^ 49" by simp
  have s: "jsSub (rnd (96 / 10)) (Fin (3 / 256)) = Fin (real_of_int 5397722483077939 / 2 ^ 49)"
    unfolding rnd_9_6 jsSub_Fin e by (rule rnd_dyadic) simp_all
  define x :: real where "x = real_of_int 5397722483077939 / 2 ^ 49 * 160"
  have x: "1534 \<le> x" "x \<le> 6137 / 4" unfolding x_def by simp_all
  have r: "rnd x = Fin (fl x)" by (rule rnd_Fin) (use x in simp)
  have "fl 1534 = 1534" "fl (6137 / 4) = 6137 / 4"
    using fl_int [of 1534] fl_dyadic [of 6137 2] by simp_all
  from fl_between [OF x this] have "\<lfloor>fl x + 1 / 2\<rfloor> = 1534" by linarith
  then show ?thesis
    unfolding remainingTicks_def Let_def s jsMul.simps x_def [symmetric] r by simp
qed

text \<open>
  C8 (the sustain note-off falls on tick 1536) at an input where the code breaks it.
  For four events \<open>1 / 256\<close> s apart (0.625 tick) the user deltas are 0, 1, 1, 1, each
  gap rounded on its own, while the closing delta is computed from the unrounded time
  of the last event, \<open>round ((9.6 - 3 / 256) * 160) = 1534\<close> (bytes 139, 126): the
  sustain note-off, which line 292 of the source means to place at exactly 9.6 s, lands
  on tick 1537.
\<close>

theorem playback_sustain_off_tick:
  "deltas (normalizedNotes padding_notes) (Fin 0) = [Fin 0, Fin 1, Fin 1, Fin 1]
   \<and> remainingTicks (lastTime (normalizedNotes padding_notes) (Fin 0)) = Fin 1534
   \<and> createPlaybackTrackData padding_notes =
       [0, 144, 127, 1, 0, 144, 60, 100, 1, 128, 60, 0, 1, 144, 60, 100, 1, 128, 60, 0,
        139, 126, 128, 127, 0, 0, 255, 47, 0]
   \<and> sustainOffTick padding_notes = 1537"
proof -
  note n = padding_normalized
  note d = padding_deltas
  have r: "remainingTicks (lastTime padding_notes (Fin 0)) = Fin 1534"
    using padding_remaining by (simp add: lastTime_def padding_notes_def)
  have v1: "variableLengthQuantity (Fin 1) = [1]" using vlq_small [of 1] by simp
  have v1534: "variableLengthQuantity (Fin 1534) = [139, 126]"
    using vlq_two [of 1534] by simp
  have "createPlaybackTrackData padding_notes =
     [0, 144, 127, 1, 0, 144, 60, 100, 1, 128, 60, 0, 1, 144, 60, 100, 1, 128, 60, 0,
      139, 126, 128, 127, 0, 0, 255, 47, 0]"
    unfolding playback_structure n r d
    by (simp add: padding_notes_def eventBytes_def vlq_0 v1 v1534 Uint8Array_def)
  moreover have "sustainOffTick padding_notes = 1537"
    by (simp add: sustainOffTick_def n r d int32_def)
  ultimately show ?thesis using r d by (simp add: n)
qed

section \<open>The player: forced duration and failed loads\<close>

lemma clear_all:
  "foldl (\<lambda>tr ev. Transport_clear ev tr) tr evs =
     tr\<lparr> timeline := filter (\<lambda>e. fst e \<notin> set evs) (timeline tr) \<rparr>"
proof (induction evs arbitrary: tr)
  case Nil
  show ?case by simp
next
  case (Cons ev evs)
  have f: "filter (\<lambda>e. fst e \<notin> set evs) (filter (\<lambda>e. fst e \<noteq> ev) xs)
      = filter (\<lambda>e. fst e \<notin> set (ev # evs)) xs" for xs :: "(nat \<times> number \<times> transportCallback) list"
    by (induction xs) auto
  have "foldl (\<lambda>tr ev. Transport_clear ev tr) tr (ev # evs)
      = foldl (\<lambda>tr ev. Transport_clear ev tr) (Transport_clear ev tr) evs"
    by simp
  also have "\<dots> = (Transport_clear ev tr)\<lparr> timeline :=
      filter (\<lambda>e. fst e \<notin> set evs) (timeline (Transport_clear ev tr)) \<rparr>"
    by (rule Cons.IH)
  also have "\<dots> = tr\<lparr> timeline := filter (\<lambda>e. fst e \<notin> set (ev # evs)) (timeline tr) \<rparr>"
    unfolding Transport_clear_def by (simp add: f)
  finally show ?case .
qed

lemma stopPlayer_playing:
  "playing p \<Longrightarrow> stopPlayer p =
     p\<lparr> transport := (transport p)\<lparr> transportState := Stopped,
            timeline := filter (\<lambda>e. fst e \<notin> set (scheduledEvents p)) (timeline (transport p)) \<rparr>,
        scheduledEvents := [], playing := False,
        statusElements := map (\<lambda>el. ''Stopped'') (statusElements p) \<rparr>"
  by (simp add: stopPlayer_def clear_all updatePlaybackStatus_def Let_def)

lemma stopPlayer_idle: "\<not> playing p \<Longrightarrow> stopPlayer p = p"
  by (simp add: stopPlayer_def)

lemma stopPlayer_idempotent: "stopPlayer (stopPlayer p) = stopPlayer p"
  by (cases "playing p") (simp_all add: stopPlayer_playing stopPlayer_idle)

lemma scheduleOne_fields:
  "playing (scheduleOne cb t p) = playing p"
  "transportState (transport (scheduleOne cb t p)) = transportState (transport p)"
  "statusElements (scheduleOne cb t p) = statusElements p"
  "triggered (scheduleOne cb t p) = triggered p"
  "currentMidiData (scheduleOne cb t p) = currentMidiData p"
  "forcedDuration (scheduleOne cb t p) = forcedDuration p"
  "synth (scheduleOne cb t p) = synth p"
  "scheduledEvents (scheduleOne cb t p) = scheduledEvents p @ [nextEventId (transport p)]"
  "timeline (transport (scheduleOne cb t p)) = timeline (transport p) @ [(nextEventId (transport p), t, cb)]"
  "nextEventId (transport (scheduleOne cb t p)) = Suc (nextEventId (transport p))"
  by (simp_all add: scheduleOne_def Transport_schedule_def)

lemma scheduleOne_own:
  assumes "timelineFresh p"
  shows "ownEvents (scheduleOne cb t p) = ownEvents p @ [(nextEventId (transport p), t, cb)]"
proof -
  let ?k = "nextEventId (transport p)"
  have lt: "\<forall>e\<in>set (timeline (transport p)). fst e < ?k"
    using assms by (simp add: timelineFresh_def list_all_iff)
  have "filter (\<lambda>e. fst e \<in> set (scheduledEvents p @ [?k])) (timeline (transport p))
      = filter (\<lambda>e. fst e \<in> set (scheduledEvents p)) (timeline (transport p))"
    by (rule filter_cong) (use lt in auto)
  then show ?thesis
    by (simp add: ownEvents_def scheduleOne_fields)
qed

lemma scheduleOne_fresh:
  assumes "timelineFresh p"
  shows "timelineFresh (scheduleOne cb t p)"
proof -
  have "\<forall>e\<in>set (timeline (transport p)). fst e < nextEventId (transport p)"
    using assms by (simp add: timelineFresh_def list_all_iff)
  then show ?thesis
    by (auto simp add: timelineFresh_def list_all_iff scheduleOne_fields less_Suc_eq)
qed

lemma scheduleOne_handles:
  assumes "list_all (\<lambda>h. h < nextEventId (transport p)) (scheduledEvents p)"
  shows "list_all (\<lambda>h. h < nextEventId (transport (scheduleOne cb t p))) (scheduledEvents (scheduleOne cb t p))"
  using assms by (auto simp add: list_all_iff scheduleOne_fields less_Suc_eq)

lemma scheduleNotes_Cons:
  "scheduleNotes d (n # ns) p =
     scheduleNotes d ns
       (if jsLess (noteTime n) d
        then scheduleOne
               (NoteCallback (noteName n) (Math_min (noteDuration n) (jsSub d (noteTime n)))
                  (noteVelocity n))
               (noteTime n) p
        else p)"
  by (simp add: scheduleOne_def Let_def)

lemma scheduleNotes_props:
  assumes "timelineFresh p" "list_all (\<lambda>h. h < nextEventId (transport p)) (scheduledEvents p)"
  shows "map snd (ownEvents (scheduleNotes d ns p)) = map snd (ownEvents p) @ noteTriggers d ns
       \<and> timelineFresh (scheduleNotes d ns p)
       \<and> list_all (\<lambda>h. h < nextEventId (transport (scheduleNotes d ns p)))
            (scheduledEvents (scheduleNotes d ns p))
       \<and> playing (scheduleNotes d ns p) = playing p
       \<and> transportState (transport (scheduleNotes d ns p)) = transportState (transport p)
       \<and> statusElements (scheduleNotes d ns p) = statusElements p
       \<and> triggered (scheduleNotes d ns p) = triggered p
       \<and> currentMidiData (scheduleNotes d ns p) = currentMidiData p"
  using assms
proof (induction ns arbitrary: p)
  case Nil
  then show ?case by (simp add: noteTriggers_def)
next
  case (Cons n ns)
  show ?case
  proof (cases "jsLess (noteTime n) d")
    case True
    let ?cb = "NoteCallback (noteName n) (Math_min (noteDuration n) (jsSub d (noteTime n))) (noteVelocity n)"
    let ?p1 = "scheduleOne ?cb (noteTime n) p"
    have f: "timelineFresh ?p1" by (rule scheduleOne_fresh [OF Cons.prems(1)])
    have h: "list_all (\<lambda>h. h < nextEventId (transport ?p1)) (scheduledEvents ?p1)"
      by (rule scheduleOne_handles [OF Cons.prems(2)])
    have o: "map snd (ownEvents ?p1) = map snd (ownEvents p) @ [(noteTime n, ?cb)]"
      by (simp add: scheduleOne_own [OF Cons.prems(1)])
    have t: "noteTriggers d (n # ns) = (noteTime n, ?cb) # noteTriggers d ns"
      using True by (simp add: noteTriggers_def)
    have s: "scheduleNotes d (n # ns) p = scheduleNotes d ns ?p1"
      using True by (simp only: scheduleNotes_Cons if_True)
    show ?thesis
      unfolding s t using Cons.IH [OF f h] by (simp add: o scheduleOne_fields)
  next
    case False
    have t: "noteTriggers d (n # ns) = noteTriggers d ns"
      using False by (simp add: noteTriggers_def)
    have s: "scheduleNotes d (n # ns) p = scheduleNotes d ns p"
      using False by (simp only: scheduleNotes_Cons if_False)
    show ?thesis
      unfolding s t by (rule Cons.IH [OF Cons.prems])
  qed
qed

lemma noteTriggers_append: "noteTriggers d (xs @ ys) = noteTriggers d xs @ noteTriggers d ys"
  by (simp add: noteTriggers_def)

lemma scheduleTracks_props:
  assumes "timelineFresh p" "list_all (\<lambda>h. h < nextEventId (transport p)) (scheduledEvents p)"
  shows "map snd (ownEvents (scheduleTracks d midi p)) = map snd (ownEvents p) @ noteTriggers d (concat midi)
       \<and> timelineFresh (scheduleTracks d midi p)
       \<and> list_all (\<lambda>h. h < nextEventId (transport (scheduleTracks d midi p)))
            (scheduledEvents (scheduleTracks d midi p))
       \<and> playing (scheduleTracks d midi p) = playing p
       \<and> transportState (transport (scheduleTracks d midi p)) = transportState (transport p)
       \<and> statusElements (scheduleTracks d midi p) = statusElements p
       \<and> triggered (scheduleTracks d midi p) = triggered p
       \<and> currentMidiData (scheduleTracks d midi p) = currentMidiData p"
  using assms
proof (induction midi arbitrary: p)
  case Nil
  then show ?case by (simp add: noteTriggers_def)
next
  case (Cons track tracks)
  let ?p1 = "scheduleNotes d track p"
  note a = scheduleNotes_props [OF Cons.prems, of d track]
  have f: "timelineFresh ?p1" using a by simp
  have h: "list_all (\<lambda>h. h < nextEventId (transport ?p1)) (scheduledEvents ?p1)" using a by simp
  show ?case
    using Cons.IH [OF f h] a by (simp add: noteTriggers_append)
qed

lemma jsLess_irrefl: "\<not> jsLess a a"
  by (cases a) simp_all




lemma stopPlayer_inv:
  assumes "playerInv p"
  shows "timelineFresh (stopPlayer p)" "scheduledEvents (stopPlayer p) = []"
    "ownEvents (stopPlayer p) = []" "\<not> playing (stopPlayer p)"
    "nextEventId (transport (stopPlayer p)) = nextEventId (transport p)"
    "currentMidiData (stopPlayer p) = currentMidiData p"
proof -
  have f: "\<forall>e\<in>set (timeline (transport p)). fst e < nextEventId (transport p)"
    using assms by (simp add: playerInv_def timelineFresh_def list_all_iff)
  have e: "playing p \<or> scheduledEvents p = []" using assms by (simp add: playerInv_def)
  show "timelineFresh (stopPlayer p)"
    using f by (cases "playing p")
      (auto simp add: stopPlayer_playing stopPlayer_idle timelineFresh_def list_all_iff)
  show "scheduledEvents (stopPlayer p) = []"
    using e by (cases "playing p") (simp_all add: stopPlayer_playing stopPlayer_idle)
  then show "ownEvents (stopPlayer p) = []" by (simp add: ownEvents_def)
  show "\<not> playing (stopPlayer p)"
    by (cases "playing p") (simp_all add: stopPlayer_playing stopPlayer_idle)
  show "nextEventId (transport (stopPlayer p)) = nextEventId (transport p)"
    by (cases "playing p") (simp_all add: stopPlayer_playing stopPlayer_idle)
  show "currentMidiData (stopPlayer p) = currentMidiData p"
    by (cases "playing p") (simp_all add: stopPlayer_playing stopPlayer_idle)
qed

lemma load_eq:
  "loadAndPlayWithDuration (Inr midi) forced p =
     (updatePlaybackStatus True
        ((scheduleTracks (effectiveDuration forced p) midi
            (scheduleOne StopCallback (effectiveDuration forced p)
               (stopPlayer ((init p)\<lparr> currentMidiData := Some midi \<rparr>))))
         \<lparr> transport := (transport (scheduleTracks (effectiveDuration forced p) midi
            (scheduleOne StopCallback (effectiveDuration forced p)
               (stopPlayer ((init p)\<lparr> currentMidiData := Some midi \<rparr>)))))\<lparr> transportState := Started \<rparr>,
           playing := True \<rparr>),
      Inr True)"
proof -
  have "effectiveDuration forced (init p) = effectiveDuration forced p"
    by (simp add: effectiveDuration_def init_def split: option.splits)
  then show ?thesis
    by (simp add: loadAndPlayWithDuration_def scheduleOne_def Let_def split: prod.splits)
qed

lemma load_schedule:
  assumes "playerInv p"
  shows "map snd (ownEvents (fst (loadAndPlayWithDuration (Inr midi) forced p)))
           = (effectiveDuration forced p, StopCallback)
               # noteTriggers (effectiveDuration forced p) (concat midi)"
    and "playing (fst (loadAndPlayWithDuration (Inr midi) forced p))"
    and "transportState (transport (fst (loadAndPlayWithDuration (Inr midi) forced p))) = Started"
    and "playerInv (fst (loadAndPlayWithDuration (Inr midi) forced p))"
    and "currentMidiData (fst (loadAndPlayWithDuration (Inr midi) forced p)) = Some midi"
proof -
  let ?d = "effectiveDuration forced p"
  let ?p1 = "(init p)\<lparr> currentMidiData := Some midi \<rparr>"
  let ?p2 = "stopPlayer ?p1"
  let ?p3 = "scheduleOne StopCallback ?d ?p2"
  let ?p4 = "scheduleTracks ?d midi ?p3"
  have i1: "playerInv ?p1"
    using assms by (simp add: playerInv_def timelineFresh_def init_def)
  note s2 = stopPlayer_inv [OF i1]
  have f3: "timelineFresh ?p3" by (rule scheduleOne_fresh [OF s2(1)])
  have h2: "list_all (\<lambda>h. h < nextEventId (transport ?p2)) (scheduledEvents ?p2)"
    by (simp add: s2(2))
  have h3: "list_all (\<lambda>h. h < nextEventId (transport ?p3)) (scheduledEvents ?p3)"
    by (rule scheduleOne_handles [OF h2])
  have o3: "map snd (ownEvents ?p3) = [(?d, StopCallback)]"
    by (simp add: scheduleOne_own [OF s2(1)] s2(3))
  note s4 = scheduleTracks_props [OF f3 h3, of ?d midi]
  have o4: "map snd (ownEvents ?p4) = (?d, StopCallback) # noteTriggers ?d (concat midi)"
    using s4 o3 by simp
  have c4: "currentMidiData ?p4 = Some midi"
    using s4 by (simp add: scheduleOne_fields s2(6))
  let ?p6 = "fst (loadAndPlayWithDuration (Inr midi) forced p)"
  have p6: "?p6 = updatePlaybackStatus True
      (?p4\<lparr> transport := (transport ?p4)\<lparr> transportState := Started \<rparr>, playing := True \<rparr>)"
    by (simp only: load_eq fst_conv)
  show "map snd (ownEvents ?p6) = (?d, StopCallback) # noteTriggers ?d (concat midi)"
    unfolding p6 using o4 by (simp add: ownEvents_def updatePlaybackStatus_def)
  show "playing ?p6" unfolding p6 by (simp add: updatePlaybackStatus_def)
  show "transportState (transport ?p6) = Started"
    unfolding p6 by (simp add: updatePlaybackStatus_def)
  show "playerInv ?p6"
    unfolding p6 using s4
    by (simp add: playerInv_def timelineFresh_def updatePlaybackStatus_def)
  show "currentMidiData ?p6 = Some midi"
    unfolding p6 using c4 by (simp add: updatePlaybackStatus_def)
qed



lemma playerInv_stopPlayer: "playerInv p \<Longrightarrow> playerInv (stopPlayer p)"
  using stopPlayer_inv [of p] by (simp add: playerInv_def)

lemma playerInv_init: "playerInv p \<Longrightarrow> playerInv (init p)"
  by (auto simp add: playerInv_def timelineFresh_def init_def)

lemma playerInv_pause: "playerInv p \<Longrightarrow> playerInv (pause p)"
  by (auto simp add: playerInv_def timelineFresh_def pause_def updatePlaybackStatus_def)

lemma playerInv_resume: "playerInv p \<Longrightarrow> playerInv (resume p)"
  by (auto simp add: playerInv_def timelineFresh_def resume_def updatePlaybackStatus_def)

lemma playerInv_runCallback: "playerInv p \<Longrightarrow> playerInv (runCallback cb t p)"
  by (cases cb) (simp_all add: playerInv_stopPlayer, simp add: playerInv_def timelineFresh_def)

lemma playerInv_load:
  assumes "playerInv p"
  shows "playerInv (fst (loadAndPlayWithDuration fetched forced p))"
proof (cases fetched)
  case (Inl e)
  then show ?thesis
    using playerInv_init [OF assms] by (simp add: loadAndPlayWithDuration_def Let_def)
next
  case (Inr midi)
  then show ?thesis using load_schedule(4) [OF assms] by simp
qed












text \<open>
  C9 (malformed source), as amended. When fetching or decoding the source throws, for an
  empty or malformed file, the load does not raise: the error is caught, the call
  resolves to \<open>false\<close>, and apart from the creation of the synth the player is as
  before, with no decoded data stored, nothing scheduled, the transport untouched and
  no note triggered.
\<close>

theorem load_failure_resolves_false:
  "loadAndPlayWithDuration (Inl e) forced p = (init p, Inr False)
   \<and> transport (init p) = transport p
   \<and> scheduledEvents (init p) = scheduledEvents p
   \<and> ownEvents (init p) = ownEvents p
   \<and> playing (init p) = playing p
   \<and> currentMidiData (init p) = currentMidiData p
   \<and> triggered (init p) = triggered p"
  by (simp add: loadAndPlayWithDuration_def init_def ownEvents_def Let_def)

text \<open>
  C9 as stated fails: on a fresh player, a source whose decoding throws
  MalformedFileError makes the load resolve to \<open>false\<close>; the error does not reach the
  caller.
\<close>

theorem load_failure_counterexample:
  "loadAndPlayWithDuration (Inl MalformedFileError) None newPrecisionMIDIPlayer
     = (newPrecisionMIDIPlayer\<lparr> synth := True \<rparr>, Inr False)"
  by (simp add: loadAndPlayWithDuration_def init_def newPrecisionMIDIPlayer_def Let_def)

section \<open>The metronome: count-in and stop\<close>

lemma scheduleNote_now:
  "jsLess (nextNoteTime m) (jsAdd ct (scheduleAheadTime m)) \<Longrightarrow>
   scheduleNote ct m = scheduleNote ct (beat m)"
  by (subst scheduleNote.simps) simp

lemma scheduleNote_done:
  "\<not> jsLess (nextNoteTime m) (jsAdd ct (scheduleAheadTime m)) \<Longrightarrow> scheduleNote ct m = Some m"
  by (subst scheduleNote.simps) simp

lemma scheduleNote_beats:
  assumes "scheduleNote ct m = Some m'"
  shows "\<exists>k. m' = (beat ^^ k) m"
proof -
  have step: "\<exists>k. y = (beat ^^ k) x"
    if ih: "\<And>c x y. f c x = Some y \<Longrightarrow> \<exists>k. y = (beat ^^ k) x"
      and eq: "(if jsLess (nextNoteTime x) (jsAdd c (scheduleAheadTime x))
                then f c (beat x) else Some x) = Some y"
    for f :: "number \<Rightarrow> Metronome \<Rightarrow> Metronome option" and c x y
  proof (cases "jsLess (nextNoteTime x) (jsAdd c (scheduleAheadTime x))")
    case True
    with eq have "f c (beat x) = Some y" by simp
    from ih [OF this] obtain k where "y = (beat ^^ k) (beat x)" by blast
    then have "y = (beat ^^ Suc k) x" by (simp add: funpow_swap1)
    then show ?thesis by blast
  next
    case False
    with eq have "y = (beat ^^ 0) x" by simp
    then show ?thesis by blast
  qed
  show ?thesis
    by (rule scheduleNote.raw_induct [where P = "\<lambda>c x y. \<exists>k. y = (beat ^^ k) x", OF step assms])
qed

lemma scheduleNote_caught_up:
  assumes "scheduleNote ct m = Some m'"
  shows "\<not> jsLess (nextNoteTime m') (jsAdd ct (scheduleAheadTime m'))"
proof -
  have step: "\<not> jsLess (nextNoteTime y) (jsAdd c (scheduleAheadTime y))"
    if ih: "\<And>c x y. f c x = Some y \<Longrightarrow>
              \<not> jsLess (nextNoteTime y) (jsAdd c (scheduleAheadTime y))"
      and eq: "(if jsLess (nextNoteTime x) (jsAdd c (scheduleAheadTime x))
                then f c (beat x) else Some x) = Some y"
    for f :: "number \<Rightarrow> Metronome \<Rightarrow> Metronome option" and c x y
  proof (cases "jsLess (nextNoteTime x) (jsAdd c (scheduleAheadTime x))")
    case True
    with eq have "f c (beat x) = Some y" by simp
    then show ?thesis by (rule ih)
  next
    case False
    with eq show ?thesis by simp
  qed
  show ?thesis
    by (rule scheduleNote.raw_induct
          [where P = "\<lambda>c x y. \<not> jsLess (nextNoteTime y) (jsAdd c (scheduleAheadTime y))",
           OF step assms])
qed

lemma filter_length_le: "length (filter P (filter Q xs)) \<le> length (filter P xs)"
  by (induction xs) auto

lemma handoffsPending_clear: "handoffsPending (clearTimeoutM h m) \<le> handoffsPending m"
  using filter_length_le [of "\<lambda>e. fst (snd e) = StartMIDIRecordingCb" "\<lambda>e. fst e \<noteq> h" "timeouts m"]
  by (simp add: handoffsPending_def clearTimeoutM_def del: filter_filter)

lemma handoffsPending_update [simp]:
  "handoffsPending (m\<lparr> clicks := a \<rparr>) = handoffsPending m"
  "handoffsPending (m\<lparr> nextNoteTime := b \<rparr>) = handoffsPending m"
  "handoffsPending (m\<lparr> countInBeat := c \<rparr>) = handoffsPending m"
  "handoffsPending (m\<lparr> beatCount := d \<rparr>) = handoffsPending m"
  "handoffsPending (m\<lparr> isCountingIn := e \<rparr>) = handoffsPending m"
  "handoffsPending (m\<lparr> recordingStarted := f \<rparr>) = handoffsPending m"
  "handoffsPending (m\<lparr> indicator := i \<rparr>) = handoffsPending m"
  by (simp_all add: handoffsPending_def)

lemma setTimeoutM_fields [simp]:
  "isPlaying (snd (setTimeoutM cb ms m)) = isPlaying m"
  "bpm (snd (setTimeoutM cb ms m)) = bpm m"
  "beatCount (snd (setTimeoutM cb ms m)) = beatCount m"
  "isCountingIn (snd (setTimeoutM cb ms m)) = isCountingIn m"
  "countInBeat (snd (setTimeoutM cb ms m)) = countInBeat m"
  "nextNoteTime (snd (setTimeoutM cb ms m)) = nextNoteTime m"
  "scheduleAheadTime (snd (setTimeoutM cb ms m)) = scheduleAheadTime m"
  "clicks (snd (setTimeoutM cb ms m)) = clicks m"
  "handoffsPending (snd (setTimeoutM cb ms m))
     = handoffsPending m + (if cb = StartMIDIRecordingCb then 1 else 0)"
  by (simp_all add: setTimeoutM_def handoffsPending_def)

lemma updateVisualIndicator_fields [simp]:
  "isPlaying (updateVisualIndicator b c m) = isPlaying m"
  "bpm (updateVisualIndicator b c m) = bpm m"
  "beatCount (updateVisualIndicator b c m) = beatCount m"
  "isCountingIn (updateVisualIndicator b c m) = isCountingIn m"
  "countInBeat (updateVisualIndicator b c m) = countInBeat m"
  "nextNoteTime (updateVisualIndicator b c m) = nextNoteTime m"
  "scheduleAheadTime (updateVisualIndicator b c m) = scheduleAheadTime m"
  "clicks (updateVisualIndicator b c m) = clicks m"
  "handoffsPending (updateVisualIndicator b c m) = handoffsPending m"
  by (simp_all add: updateVisualIndicator_def Let_def split: option.splits)

lemma beat_count_in:
  assumes "isCountingIn m"
  shows "clicks (beat m) = clicks m @ [(nextNoteTime m, True)]"
    and "countInBeat (beat m) = countInBeat m + 1"
    and "beatCount (beat m) = (if 4 \<le> countInBeat m + 1 then 0 else beatCount m)"
    and "isCountingIn (beat m) = (countInBeat m + 1 < 4)"
    and "handoffsPending (beat m) = handoffsPending m + (if 4 \<le> countInBeat m + 1 then 1 else 0)"
  using assms
  by (auto simp add: beat_def nextNote_def playClick_def Let_def)

lemma beat_regular:
  assumes "\<not> isCountingIn m"
  shows "clicks (beat m) = clicks m @ [(nextNoteTime m, False)]"
    and "countInBeat (beat m) = countInBeat m"
    and "beatCount (beat m) = beatCount m + 1"
    and "isCountingIn (beat m) = False"
    and "handoffsPending (beat m) = handoffsPending m"
  using assms
  by (simp_all add: beat_def nextNote_def playClick_def Let_def)

lemma beat_time_fields:
  "bpm (beat m) = bpm m"
  "scheduleAheadTime (beat m) = scheduleAheadTime m"
  "isPlaying (beat m) = isPlaying m"
  "nextNoteTime (beat m) = jsAdd (nextNoteTime m) (jsDiv (Fin 60) (bpm m))"
  by (simp_all add: beat_def nextNote_def playClick_def Let_def)

lemma countInInv_beat:
  assumes "countInInv c0 r0 m"
  shows "countInInv c0 r0 (beat m)"
proof (cases "isCountingIn m")
  case True
  from assms True show ?thesis
    unfolding countInInv_def countInClicks_def regularClicks_def beat_count_in [OF True]
    by (cases "4 \<le> countInBeat m + 1") auto
next
  case False
  from assms False show ?thesis
    unfolding countInInv_def countInClicks_def regularClicks_def beat_regular [OF False]
    by auto
qed

lemma countInInv_beats: "countInInv c0 r0 m \<Longrightarrow> countInInv c0 r0 ((beat ^^ k) m)"
  by (induction k) (simp_all add: countInInv_beat)

lemma countInInv_timeouts:
  assumes "countInInv c0 r0 m"
    and "clicks m' = clicks m" "countInBeat m' = countInBeat m" "beatCount m' = beatCount m"
    and "isCountingIn m' = isCountingIn m" "handoffsPending m' \<le> handoffsPending m"
  shows "countInInv c0 r0 m'"
  using assms by (auto simp add: countInInv_def countInClicks_def regularClicks_def)

lemma countInInv_scheduler:
  assumes "countInInv c0 r0 m" "scheduler ct m = Some m'"
  shows "countInInv c0 r0 m'"
proof -
  from assms(2) obtain m1 where s: "scheduleNote ct m = Some m1"
    and e: "m' = (if isPlaying m1 then
                    (let (h, m2) = setTimeoutM SchedulerCb (lookahead m1) m1
                     in m2\<lparr> intervalId := Some h \<rparr>)
                  else m1)"
    by (auto simp add: scheduler_def split: option.splits)
  from scheduleNote_beats [OF s] obtain k where "m1 = (beat ^^ k) m" by blast
  then have i: "countInInv c0 r0 m1" using assms(1) by (simp add: countInInv_beats)
  show ?thesis
    by (rule countInInv_timeouts [OF i])
       (simp_all add: e setTimeoutM_def handoffsPending_def)
qed

lemma countInInv_fireTimeoutM:
  assumes "countInInv c0 r0 m" "fireTimeoutM h ct m = Some m'"
  shows "countInInv c0 r0 m'"
proof (cases "map_of (timeouts m) h")
  case None
  with assms show ?thesis by (simp add: fireTimeoutM_def)
next
  case (Some e)
  obtain cb ms where e: "e = (cb, ms)" by (cases e)
  have c: "countInInv c0 r0 (clearTimeoutM h m)"
    by (rule countInInv_timeouts [OF assms(1)])
       (simp_all add: handoffsPending_clear, simp_all add: clearTimeoutM_def)
  show ?thesis
  proof (cases cb)
    case SchedulerCb
    with assms(2) Some e have "scheduler ct (clearTimeoutM h m) = Some m'"
      by (simp add: fireTimeoutM_def Let_def)
    then show ?thesis by (rule countInInv_scheduler [OF c])
  next
    case StartMIDIRecordingCb
    with assms(2) Some e have m': "m' = startMIDIRecording (clearTimeoutM h m)"
      by (simp add: fireTimeoutM_def Let_def)
    show ?thesis
      by (rule countInInv_timeouts [OF c])
         (simp_all add: m' startMIDIRecording_def setTimeoutM_def handoffsPending_def Let_def)
  next
    case IndicatorOffCb
    with assms(2) Some e have m': "m' = (case indicator (clearTimeoutM h m) of
                          None \<Rightarrow> clearTimeoutM h m
                        | Some ind \<Rightarrow>
                            (clearTimeoutM h m)\<lparr> indicator := Some
                                  (ind\<lparr> circleClasses :=
                                          circleClasses ind - {''active'', ''count-in''} \<rparr>) \<rparr>)"
      by (simp add: fireTimeoutM_def Let_def)
    show ?thesis
      by (rule countInInv_timeouts [OF c])
         (simp_all add: m' handoffsPending_def split: option.splits)
  next
    case (StartDirectCaptureCb d)
    with assms(2) Some e have m': "m' = (clearTimeoutM h m)\<lparr> captures := captures (clearTimeoutM h m) @ [d] \<rparr>"
      by (simp add: fireTimeoutM_def Let_def)
    show ?thesis
      by (rule countInInv_timeouts [OF c]) (simp_all add: m' handoffsPending_def)
  qed
qed

lemma countInInv_runTimers:
  "countInInv c0 r0 m \<Longrightarrow> runTimers fs m = Some m' \<Longrightarrow> countInInv c0 r0 m'"
proof (induction fs arbitrary: m)
  case Nil
  then show ?case by simp
next
  case (Cons f fs)
  from Cons.prems(2) obtain m1 where a: "fireTimeoutM (fst f) (snd f) m = Some m1"
    and b: "runTimers fs m1 = Some m'"
    by (cases "fireTimeoutM (fst f) (snd f) m") simp_all
  from Cons.IH [OF countInInv_fireTimeoutM [OF Cons.prems(1) a] b] show ?case .
qed

lemma countInInv_start:
  assumes "handoffsPending m = 0" "start b True ok ct m = Some (Inr m0)"
  shows "countInInv (countInClicks m) (regularClicks m) m0"
proof -
  let ?s = "startState b True ct (m\<lparr> audioContext := True \<rparr>)"
  have i: "countInInv (countInClicks m) (regularClicks m) ?s"
    using assms(1)
    by (simp add: countInInv_def startState_def countInClicks_def regularClicks_def
          handoffsPending_def)
  from assms(2) have "scheduler ct ?s = Some m0"
    by (auto simp add: start_def split: if_splits)
  then show ?thesis by (rule countInInv_scheduler [OF i])
qed

lemma rnd_0_6: "rnd (3 / 5) = Fin (5404319552844595 / 2 ^ 53)"
proof -
  have "fl (3 / 5) = 5404319552844595 / 2 ^ 53"
    using fl_eval [of "- 1" "3 / 5"] by (simp add: roundEven_def)
  moreover have "rnd (3 / 5) = Fin (fl (3 / 5))" by (rule rnd_Fin) simp
  ultimately show ?thesis by simp
qed

lemma spb_100: "jsDiv (Fin 60) (Fin 100) = Fin (5404319552844595 / 2 ^ 53)"
  using rnd_0_6 by simp

lemma beat_time_1: "jsAdd (Fin 0) (Fin (5404319552844595 / 2 ^ 53)) = Fin (5404319552844595 / 2 ^ 53)"
  using rnd_dyadic [of 5404319552844595 53] by simp

lemma beat_time_2:
  "jsAdd (Fin (5404319552844595 / 2 ^ 53)) (Fin (5404319552844595 / 2 ^ 53))
     = Fin (5404319552844595 / 2 ^ 52)"
  using rnd_dyadic [of 5404319552844595 52] by simp

lemma beat_time_3:
  "jsAdd (Fin (5404319552844595 / 2 ^ 52)) (Fin (5404319552844595 / 2 ^ 53))
     = Fin (2026619832316723 / 2 ^ 50)"
proof -
  define x :: real where "x = 5404319552844595 / 2 ^ 52 + 5404319552844595 / 2 ^ 53"
  have "fl x = 2026619832316723 / 2 ^ 50"
    using fl_eval [of 0 x] by (simp add: x_def roundEven_def)
  moreover have "rnd x = Fin (fl x)" by (rule rnd_Fin) (simp add: x_def)
  ultimately show ?thesis by (simp add: x_def)
qed

lemma beat_time_4:
  "jsAdd (Fin (2026619832316723 / 2 ^ 50)) (Fin (5404319552844595 / 2 ^ 53))
     = Fin (5404319552844595 / 2 ^ 51)"
proof -
  define x :: real where "x = 2026619832316723 / 2 ^ 50 + 5404319552844595 / 2 ^ 53"
  have "fl x = 5404319552844595 / 2 ^ 51"
    using fl_eval [of 1 x] by (simp add: x_def roundEven_def)
  moreover have "rnd x = Fin (fl x)" by (rule rnd_Fin) (simp add: x_def)
  ultimately show ?thesis by (simp add: x_def)
qed

lemma beat_time_5:
  "jsAdd (Fin (5404319552844595 / 2 ^ 51)) (Fin (5404319552844595 / 2 ^ 53)) = Fin 3"
proof -
  define x :: real where "x = 5404319552844595 / 2 ^ 51 + 5404319552844595 / 2 ^ 53"
  have "fl x = 3"
    using fl_eval [of 1 x] by (simp add: x_def roundEven_def)
  moreover have "rnd x = Fin (fl x)" by (rule rnd_Fin) (simp add: x_def)
  ultimately show ?thesis by (simp add: x_def)
qed

lemma beat_time_6:
  "jsAdd (Fin 3) (Fin (5404319552844595 / 2 ^ 53)) = Fin (8106479329266893 / 2 ^ 51)"
proof -
  define x :: real where "x = 3 + 5404319552844595 / 2 ^ 53"
  have "fl x = 8106479329266893 / 2 ^ 51"
    using fl_eval [of 1 x] by (simp add: x_def roundEven_def)
  moreover have "rnd x = Fin (fl x)" by (rule rnd_Fin) (simp add: x_def)
  ultimately show ?thesis by (simp add: x_def)
qed

lemma beat_times:
  "rnd (3 / 5) = Fin (5404319552844595 / 9007199254740992)"
  "rnd (5404319552844595 / 9007199254740992) = Fin (5404319552844595 / 9007199254740992)"
  "rnd (5404319552844595 / 4503599627370496) = Fin (5404319552844595 / 4503599627370496)"
  "rnd (16212958658533785 / 9007199254740992) = Fin (2026619832316723 / 1125899906842624)"
  "rnd (21617278211378379 / 9007199254740992) = Fin (5404319552844595 / 2251799813685248)"
  "rnd (27021597764222975 / 9007199254740992) = Fin 3"
  "rnd (32425917317067571 / 9007199254740992) = Fin (8106479329266893 / 2251799813685248)"
  using rnd_0_6 beat_time_1 beat_time_2 beat_time_3 beat_time_4 beat_time_5 beat_time_6
  by simp_all

lemma ahead_bounds:
  assumes "\<bar>k\<bar> \<le> 2 ^ 40"
  shows "\<exists>T. jsAdd (Fin (real_of_int k / 64)) (rnd (1 / 10)) = Fin T
           \<and> real_of_int k / 64 + 3 / 32 \<le> T \<and> T \<le> real_of_int k / 64 + 7 / 64"
proof -
  define f where "f = fl (1 / 10)"
  define c where "c = real_of_int k / 64"
  have f: "3 / 32 \<le> f" "f \<le> 7 / 64" unfolding f_def lit_0_1 by simp_all
  have r: "rnd (1 / 10) = Fin f" unfolding f_def by (rule rnd_Fin) simp
  have "real_of_int \<bar>k\<bar> \<le> real_of_int (2 ^ 40)" using assms by (simp only: of_int_le_iff)
  then have k: "\<bar>real_of_int k\<bar> \<le> 2 ^ 40" by simp
  then have c: "\<bar>c\<bar> \<le> 2 ^ 40" unfolding c_def by simp
  have "\<bar>k + 6\<bar> \<le> 2 ^ 53" using assms by simp
  from fl_dyadic [OF this, of 6] have lo: "fl (c + 3 / 32) = c + 3 / 32"
    by (simp add: c_def field_simps)
  have "\<bar>k + 7\<bar> \<le> 2 ^ 53" using assms by simp
  from fl_dyadic [OF this, of 6] have hi: "fl (c + 7 / 64) = c + 7 / 64"
    by (simp add: c_def field_simps)
  have "rnd (c + f) = Fin (fl (c + f))" by (rule rnd_Fin) (use c f in simp)
  moreover have "c + 3 / 32 \<le> fl (c + f)" "fl (c + f) \<le> c + 7 / 64"
    using fl_between [of "c + 3 / 32" "c + f" "c + 7 / 64"] f lo hi by simp_all
  ultimately show ?thesis unfolding c_def [symmetric] r by simp
qed

lemma ahead_less:
  assumes "\<bar>k\<bar> \<le> 2 ^ 40" "n < real_of_int k / 64 + 3 / 32"
  shows "jsLess (Fin n) (jsAdd (Fin (real_of_int k / 64)) (rnd (1 / 10)))"
  using ahead_bounds [OF assms(1)] assms(2) by auto

lemma ahead_not_less:
  assumes "\<bar>k\<bar> \<le> 2 ^ 40" "real_of_int k / 64 + 7 / 64 \<le> n"
  shows "\<not> jsLess (Fin n) (jsAdd (Fin (real_of_int k / 64)) (rnd (1 / 10)))"
  using ahead_bounds [OF assms(1)] assms(2) by auto

lemmas metronome_states =
  newMetronome_def after_tick0_def after_tick1_def after_tick2_def after_tick3_def
  late_beat5_def late_tick_def

lemmas beat_defs =
  beat_def nextNote_def playClick_def updateVisualIndicator_def setTimeoutM_def Let_def

lemma beat_1:
  "beat (after_tick0\<lparr> intervalId := i, timeouts := ts, nextTimerId := n \<rparr>)
     = after_tick1\<lparr> intervalId := i, timeouts := ts, nextTimerId := n \<rparr>"
  by (simp add: beat_defs metronome_states beat_times)

lemma beat_2:
  "beat (after_tick1\<lparr> intervalId := i, timeouts := ts, nextTimerId := n \<rparr>)
     = after_tick2\<lparr> intervalId := i, timeouts := ts, nextTimerId := n \<rparr>"
  by (simp add: beat_defs metronome_states beat_times)

lemma beat_3:
  "beat (after_tick2\<lparr> intervalId := i, timeouts := ts, nextTimerId := n \<rparr>)
     = after_tick3\<lparr> intervalId := i, timeouts := ts @ [(n, StartMIDIRecordingCb, Fin 50)],
                    nextTimerId := Suc n \<rparr>"
  by (simp add: beat_defs metronome_states beat_times)

lemma beat_4:
  "beat (after_tick3\<lparr> intervalId := i, timeouts := ts, nextTimerId := n \<rparr>)
     = late_beat5\<lparr> intervalId := i, timeouts := ts, nextTimerId := n \<rparr>"
  by (simp add: beat_defs metronome_states beat_times)

lemma beat_5:
  "beat (late_beat5\<lparr> intervalId := i, timeouts := ts, nextTimerId := n \<rparr>)
     = late_tick\<lparr> intervalId := i, timeouts := ts, nextTimerId := n \<rparr>"
  by (simp add: beat_defs metronome_states beat_times)

lemma state_times [simp]:
  "nextNoteTime (after_tick0\<lparr> intervalId := i, timeouts := ts, nextTimerId := n \<rparr>)
     = Fin (5404319552844595 / 2 ^ 53)"
  "nextNoteTime (after_tick1\<lparr> intervalId := i, timeouts := ts, nextTimerId := n \<rparr>)
     = Fin (5404319552844595 / 2 ^ 52)"
  "nextNoteTime (after_tick2\<lparr> intervalId := i, timeouts := ts, nextTimerId := n \<rparr>)
     = Fin (2026619832316723 / 2 ^ 50)"
  "nextNoteTime (after_tick3\<lparr> intervalId := i, timeouts := ts, nextTimerId := n \<rparr>)
     = Fin (5404319552844595 / 2 ^ 51)"
  "nextNoteTime (late_beat5\<lparr> intervalId := i, timeouts := ts, nextTimerId := n \<rparr>) = Fin 3"
  "nextNoteTime (late_tick\<lparr> intervalId := i, timeouts := ts, nextTimerId := n \<rparr>)
     = Fin (8106479329266893 / 2 ^ 51)"
  "scheduleAheadTime (after_tick0\<lparr> intervalId := i, timeouts := ts, nextTimerId := n \<rparr>)
     = rnd (1 / 10)"
  "scheduleAheadTime (after_tick1\<lparr> intervalId := i, timeouts := ts, nextTimerId := n \<rparr>)
     = rnd (1 / 10)"
  "scheduleAheadTime (after_tick2\<lparr> intervalId := i, timeouts := ts, nextTimerId := n \<rparr>)
     = rnd (1 / 10)"
  "scheduleAheadTime (after_tick3\<lparr> intervalId := i, timeouts := ts, nextTimerId := n \<rparr>)
     = rnd (1 / 10)"
  "scheduleAheadTime (late_beat5\<lparr> intervalId := i, timeouts := ts, nextTimerId := n \<rparr>)
     = rnd (1 / 10)"
  "scheduleAheadTime (late_tick\<lparr> intervalId := i, timeouts := ts, nextTimerId := n \<rparr>)
     = rnd (1 / 10)"
  by (simp_all add: metronome_states)

lemma start_tick0: "start (Fin 100) True True (Fin 0) (newMetronome None) = Some (Inr after_tick0)"
proof -
  let ?s = "startState (Fin 100) True (Fin 0) ((newMetronome None)\<lparr> audioContext := True \<rparr>)"
  have b: "beat ?s = after_tick0\<lparr> intervalId := None, timeouts := [], nextTimerId := 1 \<rparr>"
    by (simp add: beat_defs startState_def metronome_states beat_times)
  have c1: "jsLess (nextNoteTime ?s) (jsAdd (Fin 0) (scheduleAheadTime ?s))"
    using ahead_less [of 0 0] by (simp add: startState_def newMetronome_def)
  have c2: "\<not> jsLess (nextNoteTime (beat ?s)) (jsAdd (Fin 0) (scheduleAheadTime (beat ?s)))"
    unfolding b using ahead_not_less [of 0 "5404319552844595 / 2 ^ 53"] by simp
  have "scheduleNote (Fin 0) ?s = Some (beat ?s)"
    using scheduleNote_now [OF c1] scheduleNote_done [OF c2] by simp
  then have "scheduler (Fin 0) ?s = Some after_tick0"
    unfolding b by (simp add: scheduler_def setTimeoutM_def metronome_states)
  then show ?thesis
    by (simp add: start_def newMetronome_def)
qed

lemma tick1: "fireTimeoutM 1 (Fin (33 / 64)) after_tick0 = Some after_tick1"
proof -
  let ?s = "after_tick0\<lparr> intervalId := Some 1, timeouts := [], nextTimerId := 2 \<rparr>"
  let ?t = "after_tick1\<lparr> intervalId := Some 1, timeouts := [], nextTimerId := 2 \<rparr>"
  have s: "clearTimeoutM 1 after_tick0 = ?s"
    by (simp add: clearTimeoutM_def metronome_states)
  have b: "beat ?s = ?t" by (rule beat_1)
  have c1: "jsLess (nextNoteTime ?s) (jsAdd (Fin (33 / 64)) (scheduleAheadTime ?s))"
    using ahead_less [of 33 "5404319552844595 / 2 ^ 53"] by simp
  have c2: "\<not> jsLess (nextNoteTime ?t) (jsAdd (Fin (33 / 64)) (scheduleAheadTime ?t))"
    using ahead_not_less [of 33 "5404319552844595 / 2 ^ 52"] by simp
  have "scheduleNote (Fin (33 / 64)) ?s = Some ?t"
    using scheduleNote_now [OF c1] scheduleNote_done [OF c2] by (simp only: b)
  then have "scheduler (Fin (33 / 64)) ?s = Some after_tick1"
    by (simp add: scheduler_def setTimeoutM_def metronome_states)
  then show ?thesis
    unfolding s [symmetric] by (simp add: fireTimeoutM_def Let_def metronome_states)
qed

lemma tick2: "fireTimeoutM 2 (Fin (71 / 64)) after_tick1 = Some after_tick2"
proof -
  let ?s = "after_tick1\<lparr> intervalId := Some 2, timeouts := [], nextTimerId := 3 \<rparr>"
  let ?t = "after_tick2\<lparr> intervalId := Some 2, timeouts := [], nextTimerId := 3 \<rparr>"
  have s: "clearTimeoutM 2 after_tick1 = ?s"
    by (simp add: clearTimeoutM_def metronome_states)
  have b: "beat ?s = ?t" by (rule beat_2)
  have c1: "jsLess (nextNoteTime ?s) (jsAdd (Fin (71 / 64)) (scheduleAheadTime ?s))"
    using ahead_less [of 71 "5404319552844595 / 2 ^ 52"] by simp
  have c2: "\<not> jsLess (nextNoteTime ?t) (jsAdd (Fin (71 / 64)) (scheduleAheadTime ?t))"
    using ahead_not_less [of 71 "2026619832316723 / 2 ^ 50"] by simp
  have "scheduleNote (Fin (71 / 64)) ?s = Some ?t"
    using scheduleNote_now [OF c1] scheduleNote_done [OF c2] by (simp only: b)
  then have "scheduler (Fin (71 / 64)) ?s = Some after_tick2"
    by (simp add: scheduler_def setTimeoutM_def metronome_states)
  then show ?thesis
    unfolding s [symmetric] by (simp add: fireTimeoutM_def Let_def metronome_states)
qed

lemma tick3: "fireTimeoutM 3 (Fin (55 / 32)) after_tick2 = Some after_tick3"
proof -
  let ?s = "after_tick2\<lparr> intervalId := Some 3, timeouts := [], nextTimerId := 4 \<rparr>"
  let ?t = "after_tick3\<lparr> intervalId := Some 3, timeouts := [] @ [(4, StartMIDIRecordingCb, Fin 50)],
                          nextTimerId := Suc 4 \<rparr>"
  have s: "clearTimeoutM 3 after_tick2 = ?s"
    by (simp add: clearTimeoutM_def metronome_states)
  have b: "beat ?s = ?t" by (rule beat_3)
  have c1: "jsLess (nextNoteTime ?s) (jsAdd (Fin (55 / 32)) (scheduleAheadTime ?s))"
    using ahead_less [of 110 "2026619832316723 / 2 ^ 50"] by simp
  have c2: "\<not> jsLess (nextNoteTime ?t) (jsAdd (Fin (55 / 32)) (scheduleAheadTime ?t))"
    using ahead_not_less [of 110 "5404319552844595 / 2 ^ 51"] by simp
  have "scheduleNote (Fin (55 / 32)) ?s = Some ?t"
    using scheduleNote_now [OF c1] scheduleNote_done [OF c2] by (simp only: b)
  then have "scheduler (Fin (55 / 32)) ?s = Some after_tick3"
    by (simp add: scheduler_def setTimeoutM_def metronome_states)
  then show ?thesis
    unfolding s [symmetric] by (simp add: fireTimeoutM_def Let_def metronome_states)
qed

lemma late_tick1: "fireTimeoutM 1 (Fin 3) after_tick0 = Some late_tick"
proof -
  let ?s0 = "after_tick0\<lparr> intervalId := Some 1, timeouts := [], nextTimerId := 2 \<rparr>"
  let ?s1 = "after_tick1\<lparr> intervalId := Some 1, timeouts := [], nextTimerId := 2 \<rparr>"
  let ?s2 = "after_tick2\<lparr> intervalId := Some 1, timeouts := [], nextTimerId := 2 \<rparr>"
  let ?s3 = "after_tick3\<lparr> intervalId := Some 1, timeouts := [] @ [(2, StartMIDIRecordingCb, Fin 50)],
                           nextTimerId := Suc 2 \<rparr>"
  let ?s4 = "late_beat5\<lparr> intervalId := Some 1, timeouts := [] @ [(2, StartMIDIRecordingCb, Fin 50)],
                          nextTimerId := Suc 2 \<rparr>"
  let ?s5 = "late_tick\<lparr> intervalId := Some 1, timeouts := [] @ [(2, StartMIDIRecordingCb, Fin 50)],
                         nextTimerId := Suc 2 \<rparr>"
  have s: "clearTimeoutM 1 after_tick0 = ?s0"
    by (simp add: clearTimeoutM_def metronome_states)
  have c0: "jsLess (nextNoteTime ?s0) (jsAdd (Fin 3) (scheduleAheadTime ?s0))"
    using ahead_less [of 192 "5404319552844595 / 2 ^ 53"] by simp
  have c1: "jsLess (nextNoteTime ?s1) (jsAdd (Fin 3) (scheduleAheadTime ?s1))"
    using ahead_less [of 192 "5404319552844595 / 2 ^ 52"] by simp
  have c2: "jsLess (nextNoteTime ?s2) (jsAdd (Fin 3) (scheduleAheadTime ?s2))"
    using ahead_less [of 192 "2026619832316723 / 2 ^ 50"] by simp
  have c3: "jsLess (nextNoteTime ?s3) (jsAdd (Fin 3) (scheduleAheadTime ?s3))"
    using ahead_less [of 192 "5404319552844595 / 2 ^ 51"] by simp
  have c4: "jsLess (nextNoteTime ?s4) (jsAdd (Fin 3) (scheduleAheadTime ?s4))"
    using ahead_less [of 192 3] by simp
  have c5: "\<not> jsLess (nextNoteTime ?s5) (jsAdd (Fin 3) (scheduleAheadTime ?s5))"
    using ahead_not_less [of 192 "8106479329266893 / 2 ^ 51"] by simp
  have "scheduleNote (Fin 3) ?s0 = scheduleNote (Fin 3) ?s1"
    using scheduleNote_now [OF c0] by (simp only: beat_1)
  also have "\<dots> = scheduleNote (Fin 3) ?s2"
    using scheduleNote_now [OF c1] by (simp only: beat_2)
  also have "\<dots> = scheduleNote (Fin 3) ?s3"
    using scheduleNote_now [OF c2] by (simp only: beat_3)
  also have "\<dots> = scheduleNote (Fin 3) ?s4"
    using scheduleNote_now [OF c3] by (simp only: beat_4)
  also have "\<dots> = scheduleNote (Fin 3) ?s5"
    using scheduleNote_now [OF c4] by (simp only: beat_5)
  also have "\<dots> = Some ?s5" by (rule scheduleNote_done [OF c5])
  finally have "scheduler (Fin 3) ?s0 = Some late_tick"
    by (simp add: scheduler_def setTimeoutM_def metronome_states)
  then show ?thesis
    unfolding s [symmetric] by (simp add: fireTimeoutM_def Let_def metronome_states)
qed

lemma handoff_pending:
  assumes "map_of (timeouts m) h = Some (StartMIDIRecordingCb, ms)"
  shows "0 < handoffsPending m"
proof -
  from map_of_SomeD [OF assms] have "(h, StartMIDIRecordingCb, ms) \<in> set (timeouts m)" .
  then have "(h, StartMIDIRecordingCb, ms)
               \<in> set (filter (\<lambda>e. fst (snd e) = StartMIDIRecordingCb) (timeouts m))"
    by simp
  then show ?thesis unfolding handoffsPending_def by (rule length_pos_if_in_set)
qed

lemma count_in_run:
  "runTimers [(1, Fin (33 / 64)), (2, Fin (71 / 64))] after_tick0 = Some after_tick2"
  "runTimers [(1, Fin (33 / 64)), (2, Fin (71 / 64)), (3, Fin (55 / 32))] after_tick0
     = Some after_tick3"
  "runTimers [(1, Fin 3)] after_tick0 = Some late_tick"
  by (simp_all only: runTimers.simps fst_conv snd_conv tick1 tick2 tick3 late_tick1
        Option.bind.simps)

lemma stop_after_tick3:
  "stopMetronome after_tick3 = stopped" "stopMetronome stopped = stopped"
  by (simp_all add: stopMetronome_def clearTimeoutM_def Let_def stopped_def metronome_states)

lemma beat_time_restart:
  "rnd (21166918248641331 / 9007199254740992) = Fin (5291729562160333 / 2251799813685248)"
proof -
  define x :: real where "x = 7 / 4 + 5404319552844595 / 2 ^ 53"
  have "fl x = 5291729562160333 / 2 ^ 51"
    using fl_eval [of 1 x] by (simp add: x_def roundEven_def)
  moreover have "rnd x = Fin (fl x)" by (rule rnd_Fin) (simp add: x_def)
  ultimately show ?thesis by (simp add: x_def)
qed

lemma restart: "start (Fin 100) True True (Fin (7 / 4)) stopped = Some (Inr restarted)"
proof -
  let ?s = "startState (Fin 100) True (Fin (7 / 4)) (stopped\<lparr> audioContext := True \<rparr>)"
  have b: "beat ?s = restarted\<lparr> intervalId := None, timeouts := [(4, StartMIDIRecordingCb, Fin 50)],
                              nextTimerId := 6 \<rparr>"
    by (simp add: beat_defs startState_def stopped_def restarted_def metronome_states
          beat_times beat_time_restart)
  have c1: "jsLess (nextNoteTime ?s) (jsAdd (Fin (7 / 4)) (scheduleAheadTime ?s))"
    using ahead_less [of 112 "7 / 4"] by (simp add: startState_def stopped_def metronome_states)
  have c2: "\<not> jsLess (nextNoteTime (beat ?s)) (jsAdd (Fin (7 / 4)) (scheduleAheadTime (beat ?s)))"
    unfolding b using ahead_not_less [of 112 "5291729562160333 / 2 ^ 51"]
    by (simp add: restarted_def metronome_states)
  have "scheduleNote (Fin (7 / 4)) ?s = Some (beat ?s)"
    using scheduleNote_now [OF c1] scheduleNote_done [OF c2] by simp
  then have "scheduler (Fin (7 / 4)) ?s = Some restarted"
    unfolding b by (simp add: scheduler_def setTimeoutM_def restarted_def metronome_states)
  then show ?thesis
    by (simp add: start_def stopped_def metronome_states)
qed

lemma bufferedDuration:
  "jsAdd (jsDiv (Fin 16) (jsDiv (Fin 100) (Fin 60))) (Fin 3) = Fin (7093169413108531 / 2 ^ 49)"
proof -
  have a: "rnd (5 / 3) = Fin (7505999378950827 / 2 ^ 52)"
  proof -
    have "fl (5 / 3) = 7505999378950827 / 2 ^ 52"
      using fl_eval [of 0 "5 / 3"] by (simp add: roundEven_def)
    moreover have "rnd (5 / 3) = Fin (fl (5 / 3))" by (rule rnd_Fin) simp
    ultimately show ?thesis by simp
  qed
  define x :: real where "x = 16 / (7505999378950827 / 2 ^ 52)"
  have b: "rnd x = Fin (5404319552844595 / 2 ^ 49)"
  proof -
    have "fl x = 5404319552844595 / 2 ^ 49"
      using fl_eval [of 3 x] by (simp add: x_def roundEven_def)
    moreover have "rnd x = Fin (fl x)" by (rule rnd_Fin) (simp add: x_def)
    ultimately show ?thesis by simp
  qed
  have c: "rnd (5404319552844595 / 2 ^ 49 + 3) = Fin (7093169413108531 / 2 ^ 49)"
    using rnd_dyadic [of 7093169413108531 49] by simp
  have "jsDiv (Fin 100) (Fin 60) = Fin (7505999378950827 / 2 ^ 52)" using a by simp
  moreover have "jsDiv (Fin 16) (Fin (7505999378950827 / 2 ^ 52)) = Fin (5404319552844595 / 2 ^ 49)"
    using b by (simp add: x_def)
  moreover have "jsAdd (Fin (5404319552844595 / 2 ^ 49)) (Fin 3) = Fin (7093169413108531 / 2 ^ 49)"
    using c by simp
  ultimately show ?thesis by (simp only:)
qed

lemma handoff_after_stop:
  "runTimers [(4, Fin (57 / 32)), (6, Fin (59 / 32))] stopped = Some capture_started"
proof -
  have a: "startMIDIRecording (clearTimeoutM 4 stopped)
             = stopped\<lparr> timeouts := [(6, StartDirectCaptureCb (Fin (7093169413108531 / 2 ^ 49)), Fin 50)],
                        nextTimerId := 7 \<rparr>"
    unfolding startMIDIRecording_def Let_def bufferedDuration
    by (simp add: setTimeoutM_def clearTimeoutM_def stopped_def metronome_states)
  have "fireTimeoutM 4 (Fin (57 / 32)) stopped = Some (startMIDIRecording (clearTimeoutM 4 stopped))"
    by (simp add: fireTimeoutM_def Let_def stopped_def metronome_states)
  moreover have "fireTimeoutM 6 (Fin (59 / 32)) (startMIDIRecording (clearTimeoutM 4 stopped))
                   = Some capture_started"
    unfolding a
    by (simp add: fireTimeoutM_def Let_def clearTimeoutM_def capture_started_def stopped_def
          metronome_states)
  ultimately show ?thesis
    by (simp only: runTimers.simps fst_conv snd_conv Option.bind.simps)
qed

lemma timesOk_iff:
  "timesOk m \<longleftrightarrow>
     (\<exists>b n. bpm m = Fin b \<and> 1 \<le> b \<and> b \<le> 1000 \<and> nextNoteTime m = Fin n \<and> 0 \<le> n)
     \<and> scheduleAheadTime m = rnd (1 / 10)"
  by (auto simp add: timesOk_def split: number.splits)

lemma ahead_upper:
  assumes "0 \<le> c" "c \<le> 2 ^ 30"
  shows "\<exists>T. jsAdd (Fin c) (rnd (1 / 10)) = Fin T \<and> T \<le> 2 ^ 30 + 1"
proof -
  define f where "f = fl (1 / 10)"
  have f: "0 \<le> f" "f \<le> 1" unfolding f_def lit_0_1 by simp_all
  have r: "rnd (1 / 10) = Fin f" unfolding f_def by (rule rnd_Fin) simp
  have "fl (real_of_int (2 ^ 30 + 1)) = real_of_int (2 ^ 30 + 1)" by (rule fl_int) simp
  then have b: "fl (2 ^ 30 + 1) = 2 ^ 30 + 1" by simp
  have "rnd (c + f) = Fin (fl (c + f))" by (rule rnd_Fin) (use assms f in simp)
  moreover have "fl (c + f) \<le> 2 ^ 30 + 1"
    by (rule fl_le [OF _ b]) (use assms f in simp)
  ultimately show ?thesis unfolding r by simp
qed

lemma beat_advances:
  assumes "bpm m = Fin b" "1 \<le> b" "b \<le> 1000" "nextNoteTime m = Fin n" "0 \<le> n"
    "n \<le> 2 ^ 30 + 1"
  shows "\<exists>n'. nextNoteTime (beat m) = Fin n' \<and> n + 1 / 64 \<le> n'"
proof -
  define s where "s = fl (60 / b)"
  have q: "1 / 32 \<le> 60 / b" "60 / b \<le> 60" using assms(2,3) by (simp_all add: field_simps)
  have "fl (real_of_int 1 / 2 ^ 5) = real_of_int 1 / 2 ^ 5" by (rule fl_dyadic) simp_all
  then have lo: "fl (1 / 32) = 1 / 32" by simp
  have "fl (real_of_int 60) = real_of_int 60" by (rule fl_int) simp
  then have hi: "fl 60 = 60" by simp
  have s: "1 / 32 \<le> s" "s \<le> 60"
    unfolding s_def using fl_between [OF q lo hi] by simp_all
  have "rnd (60 / b) = Fin s" unfolding s_def by (rule rnd_Fin) (use q in simp)
  then have d: "jsDiv (Fin 60) (bpm m) = Fin s" using assms(1,2) by simp
  define x where "x = n + s"
  have x: "0 \<le> x" "x \<le> 2 ^ 31" unfolding x_def using assms(5,6) s by simp_all
  have r: "rnd x = Fin (fl x)" by (rule rnd_Fin) (use x in simp)
  have "\<bar>fl x - x\<bar> \<le> \<bar>x\<bar> / 2 ^ 53 + ulp 0 / 2" by (rule fl_rel_error)
  moreover have "\<bar>x\<bar> / 2 ^ 53 \<le> 2 ^ 31 / 2 ^ 53" using x by (simp add: divide_right_mono)
  moreover have "ulp 0 / 2 \<le> 1 / 2 ^ 60" using ulp_0_small ulp_pos [of 0] by simp
  ultimately have "\<bar>fl x - x\<bar> \<le> 1 / 128" by simp
  then have "n + 1 / 64 \<le> fl x" using s(1) unfolding x_def by linarith
  moreover have "nextNoteTime (beat m) = Fin (fl x)"
    unfolding beat_time_fields d assms(4) x_def [symmetric] using r by (simp add: x_def)
  ultimately show ?thesis by blast
qed

lemma timesOk_beat:
  assumes "timesOk m" "nextNoteTime m = Fin n" "n \<le> 2 ^ 30 + 1"
  shows "timesOk (beat m)"
proof -
  from assms(1) obtain b where b: "bpm m = Fin b" "1 \<le> b" "b \<le> 1000"
    and n: "0 \<le> n" and a: "scheduleAheadTime m = rnd (1 / 10)"
    using assms(2) by (auto simp add: timesOk_iff)
  from beat_advances [OF b assms(2) n assms(3)] obtain n'
    where "nextNoteTime (beat m) = Fin n'" "n + 1 / 64 \<le> n'" by blast
  then show ?thesis using b n a by (simp add: timesOk_iff beat_time_fields)
qed

lemma scheduleNote_returns:
  assumes "timesOk m" "clockOk t"
  shows "\<exists>m'. scheduleNote t m = Some m' \<and> timesOk m'"
proof -
  from assms(2) obtain c where t: "t = Fin c" and c: "0 \<le> c" "c \<le> 2 ^ 30"
    by (auto simp add: clockOk_def split: number.splits)
  from ahead_upper [OF c] obtain T where T: "jsAdd (Fin c) (rnd (1 / 10)) = Fin T"
    "T \<le> 2 ^ 30 + 1" by blast
  have "\<exists>m'. scheduleNote (Fin c) m = Some m' \<and> timesOk m'"
    if "timesOk m" "nextNoteTime m = Fin n" "k = nat \<lceil>(T - n) * 64\<rceil>" for m n k
    using that
  proof (induction k arbitrary: m n rule: less_induct)
    case (less k)
    from less.prems(1) have a: "scheduleAheadTime m = rnd (1 / 10)" and n: "0 \<le> n"
      and b: "\<exists>b. bpm m = Fin b \<and> 1 \<le> b \<and> b \<le> 1000"
      using less.prems(2) by (auto simp add: timesOk_iff)
    show ?case
    proof (cases "n < T")
      case False
      then have "\<not> jsLess (nextNoteTime m) (jsAdd (Fin c) (scheduleAheadTime m))"
        unfolding a T(1) less.prems(2) by simp
      from scheduleNote_done [OF this] less.prems(1) show ?thesis by simp
    next
      case True
      then have l: "jsLess (nextNoteTime m) (jsAdd (Fin c) (scheduleAheadTime m))"
        unfolding a T(1) less.prems(2) by simp
      have u: "n \<le> 2 ^ 30 + 1" using True T(2) by simp
      from b obtain b' where b': "bpm m = Fin b'" "1 \<le> b'" "b' \<le> 1000" by blast
      from beat_advances [OF b' less.prems(2) n u] obtain n'
        where n': "nextNoteTime (beat m) = Fin n'" "n + 1 / 64 \<le> n'" by blast
      have ok: "timesOk (beat m)" by (rule timesOk_beat [OF less.prems(1,2) u])
      have "(T - n') * 64 \<le> (T - n) * 64 - 1" using n'(2) by simp
      then have "\<lceil>(T - n') * 64\<rceil> \<le> \<lceil>(T - n) * 64 - 1\<rceil>" by (rule ceiling_mono)
      moreover have "0 < \<lceil>(T - n) * 64\<rceil>" using True by simp
      ultimately have "nat \<lceil>(T - n') * 64\<rceil> < k" unfolding less.prems(3) by simp
      from less.IH [OF this ok n'(1) refl] show ?thesis
        unfolding scheduleNote_now [OF l] .
    qed
  qed
  moreover from assms(1) obtain n where "nextNoteTime m = Fin n"
    by (auto simp add: timesOk_iff)
  ultimately show ?thesis using assms(1) unfolding t by blast
qed

lemma timesOk_timeouts:
  assumes "timesOk m" "bpm m' = bpm m" "nextNoteTime m' = nextNoteTime m"
    "scheduleAheadTime m' = scheduleAheadTime m"
  shows "timesOk m'"
  using assms by (simp add: timesOk_def)

lemma scheduler_returns:
  assumes "timesOk m" "clockOk t"
  shows "\<exists>m'. scheduler t m = Some m' \<and> timesOk m'"
proof -
  from scheduleNote_returns [OF assms] obtain m1
    where m1: "scheduleNote t m = Some m1" "timesOk m1" by blast
  have "timesOk (if isPlaying m1 then
                  (let (h, m2) = setTimeoutM SchedulerCb (lookahead m1) m1
                   in m2\<lparr> intervalId := Some h \<rparr>)
                else m1)"
    by (rule timesOk_timeouts [OF m1(2)]) (simp_all add: setTimeoutM_def)
  then show ?thesis by (simp add: scheduler_def m1(1))
qed

lemma start_returns:
  assumes "1 \<le> b" "b \<le> 1000" "clockOk t" "scheduleAheadTime m = rnd (1 / 10)"
    "audioContext m \<or> audioOk"
  shows "\<exists>m0. start (Fin b) countIn audioOk t m = Some (Inr m0) \<and> timesOk m0"
proof -
  from assms(3) obtain c where t: "t = Fin c" "0 \<le> c"
    by (auto simp add: clockOk_def split: number.splits)
  have "timesOk (startState (Fin b) countIn t (m\<lparr> audioContext := True \<rparr>))"
    using assms(1,2,4) t by (simp add: timesOk_iff startState_def)
  from scheduler_returns [OF this assms(3)] assms(5) show ?thesis
    by (auto simp add: start_def)
qed

lemma fireTimeoutM_returns:
  assumes "timesOk m" "clockOk t"
  shows "\<exists>m'. fireTimeoutM h t m = Some m' \<and> timesOk m'"
proof (cases "map_of (timeouts m) h")
  case None
  with assms(1) show ?thesis by (simp add: fireTimeoutM_def)
next
  case (Some e)
  obtain cb ms where e: "e = (cb, ms)" by (cases e)
  have c: "timesOk (clearTimeoutM h m)"
    by (rule timesOk_timeouts [OF assms(1)]) (simp_all add: clearTimeoutM_def)
  show ?thesis
  proof (cases cb)
    case SchedulerCb
    with scheduler_returns [OF c assms(2)] Some e show ?thesis
      by (simp add: fireTimeoutM_def Let_def)
  next
    case StartMIDIRecordingCb
    have "timesOk (startMIDIRecording (clearTimeoutM h m))"
      by (rule timesOk_timeouts [OF c]) (simp_all add: startMIDIRecording_def Let_def)
    with StartMIDIRecordingCb Some e show ?thesis by (simp add: fireTimeoutM_def Let_def)
  next
    case IndicatorOffCb
    have "timesOk (case indicator (clearTimeoutM h m) of
                     None \<Rightarrow> clearTimeoutM h m
                   | Some ind \<Rightarrow>
                       (clearTimeoutM h m)\<lparr> indicator := Some
                          (ind\<lparr> circleClasses := circleClasses ind - {''active'', ''count-in''} \<rparr>) \<rparr>)"
      by (rule timesOk_timeouts [OF c]) (simp_all split: option.splits)
    with IndicatorOffCb Some e show ?thesis by (simp add: fireTimeoutM_def Let_def)
  next
    case (StartDirectCaptureCb d)
    have "timesOk ((clearTimeoutM h m)\<lparr> captures := captures (clearTimeoutM h m) @ [d] \<rparr>)"
      by (rule timesOk_timeouts [OF c]) simp_all
    with StartDirectCaptureCb Some e show ?thesis by (simp add: fireTimeoutM_def Let_def)
  qed
qed

lemma runTimers_returns:
  "timesOk m \<Longrightarrow> list_all (\<lambda>f. clockOk (snd f)) fs \<Longrightarrow>
   \<exists>m'. runTimers fs m = Some m' \<and> timesOk m'"
proof (induction fs arbitrary: m)
  case Nil
  then show ?case by simp
next
  case (Cons f fs)
  from Cons.prems(2) have f: "clockOk (snd f)" and fs: "list_all (\<lambda>f. clockOk (snd f)) fs"
    by simp_all
  from fireTimeoutM_returns [OF Cons.prems(1) f] obtain m1
    where m1: "fireTimeoutM (fst f) (snd f) m = Some m1" "timesOk m1" by blast
  from Cons.IH [OF m1(2) fs] show ?case by (simp add: m1(1))
qed

text \<open>
  C3 (count-in), as amended. Take any \<open>start(bpm, true)\<close> call on a metronome that has no
  hand-over to \<open>startMIDIRecording\<close> left pending by an earlier session, and any run of
  the timers after it: scheduler ticks at any clock readings, however late, the
  hand-over, the indicator and the capture timers, in any order, with no call of
  \<open>stop\<close> or \<open>start\<close> in between. In every state of such a run, counted from the call:
  at most 4 count-in beats have been emitted; \<open>isCountingIn\<close> is true exactly while
  there are fewer than 4, and \<open>countInBeat\<close> is their number; no regular beat is emitted
  during the count-in; at most one hand-over is pending, and one is pending only when
  exactly 4 count-in beats have been emitted, so \<open>startMIDIRecording\<close> is never invoked
  before; and \<open>beatCount\<close> is the number of regular beats emitted, which is 0 through
  the count-in and when the 4th count-in beat queues the hand-over, but is whatever the
  scheduler has emitted since by the time the hand-over is invoked. For tempos from 1
  to 1000 BPM and clock readings from 0 to \<open>2 ^ 30\<close> s, \<open>start\<close> and every such run
  return (\<open>start_returns\<close>, \<open>runTimers_returns\<close>), and a scheduler tick leaves no beat
  behind that is due within its look-ahead (\<open>scheduleNote_caught_up\<close>).
\<close>

theorem count_in_invariant:
  assumes "handoffsPending m = 0"
    and "start newBpm True audioOk currentTime m = Some (Inr m0)"
    and "runTimers fs m0 = Some m'"
  shows "countInClicks m \<le> countInClicks m' \<and> countInClicks m' \<le> countInClicks m + 4
       \<and> regularClicks m \<le> regularClicks m'
       \<and> (isCountingIn m' \<longleftrightarrow> countInClicks m' < countInClicks m + 4)
       \<and> countInBeat m' = int (countInClicks m' - countInClicks m)
       \<and> (isCountingIn m' \<longrightarrow> regularClicks m' = regularClicks m)
       \<and> beatCount m' = int (regularClicks m' - regularClicks m)
       \<and> handoffsPending m' \<le> 1
       \<and> (\<forall>h ms. map_of (timeouts m') h = Some (StartMIDIRecordingCb, ms) \<longrightarrow>
             \<not> isCountingIn m' \<and> countInClicks m' = countInClicks m + 4)"
proof -
  have "countInInv (countInClicks m) (regularClicks m) m0"
    by (rule countInInv_start [OF assms(1,2)])
  then have i: "countInInv (countInClicks m) (regularClicks m) m'"
    using assms(3) by (rule countInInv_runTimers)
  have p: "\<not> isCountingIn m' \<and> countInClicks m' = countInClicks m + 4"
    if "map_of (timeouts m') h = Some (StartMIDIRecordingCb, ms)" for h ms
    using handoff_pending [OF that] i by (auto simp add: countInInv_def split: if_splits)
  from i have "countInClicks m \<le> countInClicks m' \<and> countInClicks m' \<le> countInClicks m + 4
       \<and> regularClicks m \<le> regularClicks m'
       \<and> (isCountingIn m' \<longleftrightarrow> countInClicks m' < countInClicks m + 4)
       \<and> countInBeat m' = int (countInClicks m' - countInClicks m)
       \<and> (isCountingIn m' \<longrightarrow> regularClicks m' = regularClicks m)
       \<and> beatCount m' = int (regularClicks m' - regularClicks m)
       \<and> handoffsPending m' \<le> 1"
    by (auto simp add: countInInv_def split: if_splits)
  with p show ?thesis by blast
qed

lemma state_counts:
  "handoffsPending (newMetronome None) = 0"
  "countInClicks (newMetronome None) = 0" "regularClicks (newMetronome None) = 0"
  "countInClicks after_tick2 = 3" "regularClicks after_tick2 = 0"
  "countInClicks after_tick3 = 4" "regularClicks after_tick3 = 0"
  "countInClicks late_tick = 4" "regularClicks late_tick = 2"
  "countInClicks stopped = 4" "countInClicks restarted = 5"
  "handoffsPending stopped = 1"
  by (simp_all add: countInClicks_def regularClicks_def handoffsPending_def stopped_def
        restarted_def metronome_states)

text \<open>
  A fresh metronome started at 100 BPM at clock reading 0 (the first count-in beat is
  emitted by \<open>start\<close> itself), then the scheduler ticks at 0.515625 s and 1.109375 s
  that find the next beat within the look-ahead (the ticks that find no beat due only
  re-arm the timer and are left out): three count-in beats, still counting in, nothing
  pending. The tick at 1.71875 s emits the 4th count-in beat, at the double
  1.7999999999999998, which queues the hand-over as timer 4 with \<open>beatCount = 0\<close>.
\<close>

theorem count_in_invariant_witness:
  "handoffsPending (newMetronome None) = 0
   \<and> start (Fin 100) True True (Fin 0) (newMetronome None) = Some (Inr after_tick0)
   \<and> runTimers [(1, Fin (33 / 64)), (2, Fin (71 / 64))] after_tick0 = Some after_tick2
   \<and> isCountingIn after_tick2 \<and> countInClicks after_tick2 = 3 \<and> countInBeat after_tick2 = 3
   \<and> regularClicks after_tick2 = 0 \<and> beatCount after_tick2 = 0
   \<and> handoffsPending after_tick2 = 0
   \<and> runTimers [(1, Fin (33 / 64)), (2, Fin (71 / 64)), (3, Fin (55 / 32))] after_tick0
        = Some after_tick3
   \<and> \<not> isCountingIn after_tick3 \<and> countInClicks after_tick3 = 4 \<and> countInBeat after_tick3 = 4
   \<and> regularClicks after_tick3 = 0 \<and> beatCount after_tick3 = 0
   \<and> map_of (timeouts after_tick3) 4 = Some (StartMIDIRecordingCb, Fin 50)
   \<and> clicks after_tick3
        = [(Fin 0, True), (Fin (5404319552844595 / 2 ^ 53), True),
           (Fin (5404319552844595 / 2 ^ 52), True), (Fin (2026619832316723 / 2 ^ 50), True)]"
proof -
  note a = count_in_invariant [OF state_counts(1) start_tick0 count_in_run(1)]
  note b = count_in_invariant [OF state_counts(1) start_tick0 count_in_run(2)]
  have c: "map_of (timeouts after_tick3) 4 = Some (StartMIDIRecordingCb, Fin 50)"
    "handoffsPending after_tick2 = 0"
    "clicks after_tick3
        = [(Fin 0, True), (Fin (5404319552844595 / 2 ^ 53), True),
           (Fin (5404319552844595 / 2 ^ 52), True), (Fin (2026619832316723 / 2 ^ 50), True)]"
    by (simp_all add: handoffsPending_def metronome_states)
  from a have a': "isCountingIn after_tick2" "countInBeat after_tick2 = 3"
    "beatCount after_tick2 = 0"
    by (simp_all add: state_counts)
  from b have b': "\<not> isCountingIn after_tick3" "countInBeat after_tick3 = 4"
    "beatCount after_tick3 = 0"
    by (simp_all add: state_counts)
  from a' b' c state_counts start_tick0 count_in_run show ?thesis by blast
qed

text \<open>
  C3 as stated fails on each of its three parts.
  A late scheduler tick: after the same \<open>start\<close>, a first tick that fires only at clock
  reading 3 s emits the three remaining count-in beats and two regular beats in one
  call, so the hand-over (timer 2) is pending, and then invoked, with \<open>beatCount = 2\<close>.
  A hand-over left pending: the tick at 1.71875 s arms timer 4, due 50 ms later; a
  \<open>stop()\<close> does not cancel it, \<open>start(100, true)\<close> at 1.75 s emits the first beat of a
  new count-in, and at 1.78125 s timer 4 invokes \<open>startMIDIRecording\<close> after that one
  count-in beat, with the metronome still counting in.
  Other triggers: three beats into a count-in, \<open>stop()\<close> clears \<open>isCountingIn\<close>, and so
  do the assignments of \<open>start(bpm, false)\<close>.
\<close>

theorem count_in_counterexample:
  "start (Fin 100) True True (Fin 0) (newMetronome None) = Some (Inr after_tick0)
   \<and> fireTimeoutM 1 (Fin 3) after_tick0 = Some late_tick
   \<and> map_of (timeouts late_tick) 2 = Some (StartMIDIRecordingCb, Fin 50)
   \<and> beatCount late_tick = 2
   \<and> fireTimeoutM 2 (Fin 3) late_tick = Some (startMIDIRecording (clearTimeoutM 2 late_tick))
   \<and> beatCount (startMIDIRecording (clearTimeoutM 2 late_tick)) = 2
   \<and> runTimers [(1, Fin (33 / 64)), (2, Fin (71 / 64)), (3, Fin (55 / 32))] after_tick0
        = Some after_tick3
   \<and> stopMetronome after_tick3 = stopped
   \<and> start (Fin 100) True True (Fin (7 / 4)) stopped = Some (Inr restarted)
   \<and> isCountingIn restarted \<and> countInBeat restarted = 1
   \<and> countInClicks restarted = countInClicks stopped + 1
   \<and> fireTimeoutM 4 (Fin (57 / 32)) restarted = Some (startMIDIRecording (clearTimeoutM 4 restarted))
   \<and> isCountingIn (startMIDIRecording (clearTimeoutM 4 restarted))
   \<and> isCountingIn after_tick2 \<and> countInClicks after_tick2 = 3
   \<and> \<not> isCountingIn (stopMetronome after_tick2)
   \<and> \<not> isCountingIn (startState (Fin 100) False (Fin (5 / 4)) after_tick2)"
proof -
  have a: "map_of (timeouts late_tick) 2 = Some (StartMIDIRecordingCb, Fin 50)"
    "beatCount late_tick = 2"
    "fireTimeoutM 2 (Fin 3) late_tick = Some (startMIDIRecording (clearTimeoutM 2 late_tick))"
    "beatCount (startMIDIRecording (clearTimeoutM 2 late_tick)) = 2"
    by (simp_all add: fireTimeoutM_def startMIDIRecording_def setTimeoutM_def clearTimeoutM_def
          Let_def metronome_states)
  have b: "isCountingIn restarted" "countInBeat restarted = 1"
    "countInClicks restarted = countInClicks stopped + 1"
    "fireTimeoutM 4 (Fin (57 / 32)) restarted = Some (startMIDIRecording (clearTimeoutM 4 restarted))"
    "isCountingIn (startMIDIRecording (clearTimeoutM 4 restarted))"
    by (simp_all add: state_counts)
       (simp_all add: fireTimeoutM_def startMIDIRecording_def setTimeoutM_def clearTimeoutM_def
          Let_def restarted_def metronome_states)
  have c: "isCountingIn after_tick2"
    "\<not> isCountingIn (stopMetronome after_tick2)"
    "\<not> isCountingIn (startState (Fin 100) False (Fin (5 / 4)) after_tick2)"
    by (simp_all add: stopMetronome_def clearTimeoutM_def startState_def Let_def metronome_states)
  from a b c start_tick0 late_tick1 count_in_run(2) stop_after_tick3(1) restart state_counts(4)
  show ?thesis by blast
qed

text \<open>
  C4 (stopping twice): the defect, on the metronome. A fresh metronome is started at
  100 BPM and its scheduler ticks until the 4th count-in beat has armed the hand-over
  (timer 4, whose handle line 56 does not keep) next to the scheduler tick (timer 5,
  kept in \<open>intervalId\<close>). \<open>stop()\<close> is called twice. The second call changes nothing, and
  the scheduler tick is cleared, but timer 4 is still pending: it fires,
  \<open>startMIDIRecording\<close> runs on the stopped metronome (at 1.78125 s, the tick that
  armed it being the one at 1.71875 s), and its own 50 ms timer calls
  \<open>startDirectCapture\<close> with the double 12.6. So a timer callback of the metronome
  fires after the second call of \<open>stop()\<close>, and a capture starts.
\<close>

theorem stop_leaves_handoff_timer:
  "start (Fin 100) True True (Fin 0) (newMetronome None) = Some (Inr after_tick0)
   \<and> runTimers [(1, Fin (33 / 64)), (2, Fin (71 / 64)), (3, Fin (55 / 32))] after_tick0
        = Some after_tick3
   \<and> timeouts after_tick3 = [(4, StartMIDIRecordingCb, Fin 50), (5, SchedulerCb, Fin 25)]
   \<and> captures after_tick3 = []
   \<and> stopMetronome (stopMetronome after_tick3) = stopMetronome after_tick3
   \<and> \<not> isPlaying (stopMetronome (stopMetronome after_tick3))
   \<and> timeouts (stopMetronome (stopMetronome after_tick3)) = [(4, StartMIDIRecordingCb, Fin 50)]
   \<and> runTimers [(4, Fin (57 / 32)), (6, Fin (59 / 32))] (stopMetronome (stopMetronome after_tick3))
        = Some capture_started
   \<and> captures capture_started = [Fin (7093169413108531 / 2 ^ 49)]"
proof -
  have a: "timeouts after_tick3 = [(4, StartMIDIRecordingCb, Fin 50), (5, SchedulerCb, Fin 25)]"
    "captures after_tick3 = []"
    "\<not> isPlaying stopped" "timeouts stopped = [(4, StartMIDIRecordingCb, Fin 50)]"
    "captures capture_started = [Fin (7093169413108531 / 2 ^ 49)]"
    by (simp_all add: capture_started_def stopped_def metronome_states)
  from a start_tick0 count_in_run(2) handoff_after_stop show ?thesis
    unfolding stop_after_tick3 by blast
qed

end
